theory Spec2Isabelle
  imports Main
begin

section \<open>Strings\<close>

text \<open>
  A line is a JavaScript string. It is modelled as a list of 8-bit characters, read as
  the code units U+0000 to U+00FF. The built-in string methods that
  \<^verbatim>\<open>server.js\<close> calls are written out for that range.
\<close>

text \<open>
  \<^verbatim>\<open>String.prototype.trim\<close> removes white space and line terminators from both
  ends: TAB, LF, VT, FF, CR, SP and NBSP are the ones below U+0100.
\<close>

definition is_ws :: "char \<Rightarrow> bool" where
  "is_ws c \<longleftrightarrow> c \<in> {CHR 0x09, CHR 0x0A, CHR 0x0B, CHR 0x0C, CHR 0x0D, CHR 0x20, CHR 0xA0}"

definition trim :: "string \<Rightarrow> string" where
  "trim s = rev (dropWhile is_ws (rev (dropWhile is_ws s)))"

text \<open>
  \<^verbatim>\<open>s.split(sep)\<close> for a one-character separator: every occurrence of the
  separator ends a token, so adjacent separators give empty tokens and the result always
  has at least one token.
\<close>

fun split :: "char \<Rightarrow> string \<Rightarrow> string list" where
  "split sep [] = [[]]"
| "split sep (c # cs) =
     (if c = sep then [] # split sep cs
      else (case split sep cs of [] \<Rightarrow> [[c]] | t # ts \<Rightarrow> (c # t) # ts))"

text \<open>\<^verbatim>\<open>parts.join(sep)\<close>.\<close>

fun join :: "char \<Rightarrow> string list \<Rightarrow> string" where
  "join sep [] = []"
| "join sep [t] = t"
| "join sep (t # u # ts) = t @ sep # join sep (u # ts)"

text \<open>
  \<^verbatim>\<open>String.prototype.toUpperCase\<close>: the letters a to z and the accented letters
  U+00E0 to U+00FE (the division sign apart) move down by 32, the sharp s becomes SS. The
  micro sign and the y with diaeresis have upper-case forms beyond U+00FF; they are left
  as they are, which differs from the script only in a character that no command word
  contains.
\<close>

definition upper_char :: "char \<Rightarrow> string" where
  "upper_char c =
     (let n = (of_char c :: nat) in
      if (97 \<le> n \<and> n \<le> 122) \<or> (224 \<le> n \<and> n \<le> 254 \<and> n \<noteq> 247) then [char_of (n - 32)]
      else if n = 223 then ''SS''
      else [c])"

definition toUpperCase :: "string \<Rightarrow> string" where
  "toUpperCase s = concat (map upper_char s)"

section \<open>The JavaScript Map\<close>

text \<open>
  A \<^verbatim>\<open>Map\<close> keeps its entries in insertion order. \<^verbatim>\<open>set\<close> on a key that is
  present replaces the value where the entry stands, on a new key it appends the entry;
  \<^verbatim>\<open>delete\<close> removes the entry of the key, if any.
\<close>

definition map_has :: "('k \<times> 'v) list \<Rightarrow> 'k \<Rightarrow> bool" where
  "map_has m k \<longleftrightarrow> k \<in> set (map fst m)"

definition map_get :: "('k \<times> 'v) list \<Rightarrow> 'k \<Rightarrow> 'v option" where
  "map_get m k = map_of m k"

fun map_set :: "('k \<times> 'v) list \<Rightarrow> 'k \<Rightarrow> 'v \<Rightarrow> ('k \<times> 'v) list" where
  "map_set [] k v = [(k, v)]"
| "map_set ((k', v') # m) k v =
     (if k' = k then (k, v) # m else (k', v') # map_set m k v)"

definition map_delete :: "('k \<times> 'v) list \<Rightarrow> 'k \<Rightarrow> ('k \<times> 'v) list" where
  "map_delete m k = filter (\<lambda>e. fst e \<noteq> k) m"

section \<open>State and primitive effects\<close>

text \<open>
  A socket is known by its identity. The script reads one property of it,
  \<^verbatim>\<open>destroyed\<close>, and calls two methods, \<^verbatim>\<open>write\<close> and \<^verbatim>\<open>destroy\<close>.
\<close>

type_synonym sock = nat

record user_data =
  socket :: sock
  lastActivity :: int
  disconnecting :: bool

text \<open>
  The trace lists, in program order, the calls on sockets and the changes of the key set
  of \<^verbatim>\<open>users\<close>. Calls of \<^verbatim>\<open>console.log\<close> and \<^verbatim>\<open>console.error\<close> are left out.
\<close>

datatype event =
    SocketWrite sock string
  | SocketDestroy sock
  | UsersSet string
  | UsersDelete string
  | UsersClear

record state =
  users :: "(string \<times> user_data) list"
  destroyed :: "sock set"
  trace :: "event list"

definition init :: state where
  "init = \<lparr>users = [], destroyed = {}, trace = []\<rparr>"

definition IDLE_TIMEOUT :: int where
  "IDLE_TIMEOUT = 60000"

definition socket_write :: "state \<Rightarrow> sock \<Rightarrow> string \<Rightarrow> state" where
  "socket_write s sock line = s\<lparr>trace := trace s @ [SocketWrite sock line]\<rparr>"

definition socket_destroy :: "state \<Rightarrow> sock \<Rightarrow> state" where
  "socket_destroy s sock =
     s\<lparr>destroyed := insert sock (destroyed s), trace := trace s @ [SocketDestroy sock]\<rparr>"

definition users_set :: "state \<Rightarrow> string \<Rightarrow> user_data \<Rightarrow> state" where
  "users_set s username d =
     s\<lparr>users := map_set (users s) username d, trace := trace s @ [UsersSet username]\<rparr>"

definition users_delete :: "state \<Rightarrow> string \<Rightarrow> state" where
  "users_delete s username =
     s\<lparr>users := map_delete (users s) username, trace := trace s @ [UsersDelete username]\<rparr>"

definition users_clear :: "state \<Rightarrow> state" where
  "users_clear s = s\<lparr>users := [], trace := trace s @ [UsersClear]\<rparr>"

text \<open>The transport destroys a socket on its own when the peer resets the connection.\<close>

definition socket_lost :: "state \<Rightarrow> sock \<Rightarrow> state" where
  "socket_lost s sock = s\<lparr>destroyed := insert sock (destroyed s)\<rparr>"

section \<open>The functions of server.js\<close>

text \<open>
  \<^verbatim>\<open>socket.write\<close> of a string on a socket that is not destroyed does not throw, so
  the handler of the \<^verbatim>\<open>try\<close> block is left out.
\<close>

definition sendToSocket :: "state \<Rightarrow> sock \<Rightarrow> string \<Rightarrow> state" where
  "sendToSocket s sock message =
     (if sock \<notin> destroyed s then socket_write s sock (message @ [CHR 0x0A]) else s)"

text \<open>\<^verbatim>\<open>excludeSocket\<close> defaults to \<^verbatim>\<open>null\<close>, which is \<open>None\<close>.\<close>

definition broadcast :: "state \<Rightarrow> string \<Rightarrow> sock option \<Rightarrow> state" where
  "broadcast s message excludeSocket =
     foldl (\<lambda>s' e.
        if Some (socket (snd e)) \<noteq> excludeSocket \<and> socket (snd e) \<notin> destroyed s'
        then sendToSocket s' (socket (snd e)) message else s')
     s (users s)"

definition broadcastToAll :: "state \<Rightarrow> string \<Rightarrow> state" where
  "broadcastToAll s message =
     foldl (\<lambda>s' e.
        if socket (snd e) \<notin> destroyed s' then sendToSocket s' (socket (snd e)) message else s')
     s (users s)"

fun find_socket :: "(string \<times> user_data) list \<Rightarrow> sock \<Rightarrow> string option" where
  "find_socket [] sock = None"
| "find_socket ((username, d) # m) sock =
     (if socket d = sock then Some username else find_socket m sock)"

definition getUsernameBySocket :: "state \<Rightarrow> sock \<Rightarrow> string option" where
  "getUsernameBySocket s sock = find_socket (users s) sock"

text \<open>
  A value used as a condition: \<^verbatim>\<open>null\<close> and the empty string count as false.
\<close>

fun truthy :: "string option \<Rightarrow> bool" where
  "truthy None = False"
| "truthy (Some u) = (u \<noteq> [])"

text \<open>\<^verbatim>\<open>Date.now()\<close> is the argument \<open>now\<close>.\<close>

definition updateActivity :: "state \<Rightarrow> int \<Rightarrow> sock \<Rightarrow> state" where
  "updateActivity s now sock =
     (case getUsernameBySocket s sock of
        None \<Rightarrow> s
      | Some username \<Rightarrow>
          if username \<noteq> [] \<and> map_has (users s) username
          then s\<lparr>users := map (\<lambda>(k, d). if k = username then (k, d\<lparr>lastActivity := now\<rparr>) else (k, d))
                              (users s)\<rparr>
          else s)"

definition mark_disconnecting :: "state \<Rightarrow> string \<Rightarrow> state" where
  "mark_disconnecting s username =
     s\<lparr>users := map (\<lambda>(k, d). if k = username then (k, d\<lparr>disconnecting := True\<rparr>) else (k, d))
                     (users s)\<rparr>"

definition ensure_destroyed :: "state \<Rightarrow> sock \<Rightarrow> state" where
  "ensure_destroyed s sock = (if sock \<notin> destroyed s then socket_destroy s sock else s)"

text \<open>
  The early return of \<^verbatim>\<open>handleDisconnect\<close> on an entry that is marked as
  disconnecting leaves the state as it is, the socket included. Otherwise the entry is
  marked, the name is deleted, the others are told, and the socket is destroyed unless it
  is destroyed already.
\<close>

definition handleDisconnect :: "state \<Rightarrow> sock \<Rightarrow> state" where
  "handleDisconnect s sock =
     (let username = getUsernameBySocket s sock in
      if truthy username then
        (let name = the username in
         case map_get (users s) name of
           Some userData \<Rightarrow>
             if disconnecting userData then s
             else ensure_destroyed
                    (broadcast (users_delete (mark_disconnecting s name) name)
                       (''INFO '' @ name @ '' disconnected'') None)
                    sock
         | None \<Rightarrow>
             ensure_destroyed
               (broadcast (users_delete s name) (''INFO '' @ name @ '' disconnected'') None)
               sock)
      else ensure_destroyed s sock)"

text \<open>
  \<^verbatim>\<open>parts[0]\<close> is the head of the tokens, of which there is always one;
  \<^verbatim>\<open>parts[1]\<close> is read only when there are three tokens or more. The three early
  returns of LOGIN and the one of each other command are the branches of the conditionals.
  In DM, \<^verbatim>\<open>users.get\<close> comes after \<^verbatim>\<open>users.has\<close> has answered true, so its
  result is an entry; the case \<open>None\<close> is there for the type only.
\<close>

definition handleCommand :: "state \<Rightarrow> int \<Rightarrow> sock \<Rightarrow> string \<Rightarrow> state" where
  "handleCommand s0 now sock data =
     (let message = trim data in
      if message = [] then s0
      else
        let s = updateActivity s0 now sock;
            username = getUsernameBySocket s sock;
            parts = split CHR '' '' message;
            command = toUpperCase (hd parts)
        in
        if command = ''LOGIN'' then
          (if truthy username then sendToSocket s sock ''ERR already-logged-in''
           else
             let newUsername = trim (join CHR '' '' (drop 1 parts)) in
             if newUsername = [] then sendToSocket s sock ''ERR invalid-username''
             else if map_has (users s) newUsername then sendToSocket s sock ''ERR username-taken''
             else sendToSocket
                    (users_set s newUsername
                       \<lparr>socket = sock, lastActivity = now, disconnecting = False\<rparr>)
                    sock ''OK'')
        else if \<not> truthy username then sendToSocket s sock ''ERR not-logged-in''
        else
          let name = the username in
          if command = ''MSG'' then
            (let text = trim (join CHR '' '' (drop 1 parts)) in
             if text = [] then sendToSocket s sock ''ERR empty-message''
             else broadcastToAll s (''MSG '' @ name @ '' '' @ text))
          else if command = ''WHO'' then
            (if length (users s) = 0 then sendToSocket s sock ''INFO no-users-online''
             else foldl (\<lambda>s' e. sendToSocket s' sock (''USER '' @ fst e)) s (users s))
          else if command = ''DM'' then
            (if length parts < 3 then sendToSocket s sock ''ERR invalid-dm-format''
             else
               let targetUsername = parts ! 1;
                   text = trim (join CHR '' '' (drop 2 parts))
               in
               if text = [] then sendToSocket s sock ''ERR empty-message''
               else if \<not> map_has (users s) targetUsername
               then sendToSocket s sock ''ERR user-not-found''
               else
                 (case map_get (users s) targetUsername of
                    None \<Rightarrow> s
                  | Some targetData \<Rightarrow>
                      if socket targetData \<in> destroyed s
                      then sendToSocket s sock ''ERR user-not-found''
                      else sendToSocket
                             (sendToSocket s (socket targetData)
                                (''DM '' @ name @ '' '' @ text))
                             sock (''DM-SENT '' @ targetUsername)))
          else if command = ''PING'' then sendToSocket s sock ''PONG''
          else sendToSocket s sock ''ERR unknown-command'')"

text \<open>
  The first loop of \<^verbatim>\<open>checkIdleUsers\<close> pushes the idle entries onto
  \<^verbatim>\<open>usersToDisconnect\<close>, the second one walks that array.
\<close>

definition usersToDisconnect :: "state \<Rightarrow> int \<Rightarrow> (string \<times> sock) list" where
  "usersToDisconnect s now =
     foldl (\<lambda>acc e.
        if now - lastActivity (snd e) > IDLE_TIMEOUT \<and> \<not> disconnecting (snd e)
        then acc @ [(fst e, socket (snd e))] else acc)
     [] (users s)"

definition checkIdleUsers :: "state \<Rightarrow> int \<Rightarrow> state" where
  "checkIdleUsers s now =
     foldl (\<lambda>s' e.
        handleDisconnect (sendToSocket s' (snd e) ''INFO disconnected-due-to-inactivity'') (snd e))
     s (usersToDisconnect s now)"

text \<open>The handler of \<^verbatim>\<open>SIGINT\<close>, up to the point where the listener is closed.\<close>

definition shutdown :: "state \<Rightarrow> state" where
  "shutdown s =
     (let s1 = broadcast s ''INFO server-shutting-down'' None;
          s2 = foldl (\<lambda>s' e. socket_destroy s' (socket (snd e))) s1 (users s1)
      in users_clear s2)"


section \<open>Reachable states\<close>

text \<open>
  The invariant of the registry: the keys are distinct (a \<^verbatim>\<open>Map\<close> has one entry
  per key), no two entries hold the same socket, no key is the empty string and no entry
  is marked as disconnecting.
\<close>

definition wf :: "state \<Rightarrow> bool" where
  "wf s \<longleftrightarrow>
     distinct (map fst (users s)) \<and>
     distinct (map (\<lambda>e. socket (snd e)) (users s)) \<and>
     (\<forall>e \<in> set (users s). fst e \<noteq> [] \<and> \<not> disconnecting (snd e))"

text \<open>
  The states the server can be in: it starts with an empty registry, and every event is
  handled to completion before the next one: a line arrives on a socket, a socket reports
  its end, an error or its closing, the idle timer fires, the transport destroys a socket,
  or the process is interrupted.
\<close>

inductive reachable :: "state \<Rightarrow> bool" where
  start: "reachable init"
| command: "reachable s \<Longrightarrow> reachable (handleCommand s now sock data)"
| disconnect: "reachable s \<Longrightarrow> reachable (handleDisconnect s sock)"
| sweep: "reachable s \<Longrightarrow> reachable (checkIdleUsers s now)"
| lost: "reachable s \<Longrightarrow> reachable (socket_lost s sock)"
| interrupt: "reachable s \<Longrightarrow> reachable (shutdown s)"

section \<open>Reading a line\<close>

text \<open>
  The expressions that \<^verbatim>\<open>handleCommand\<close> computes from a line: the tokens of the
  trimmed line, the command word in upper case, and the rest of the line, which LOGIN takes
  as the requested name and MSG as the text.
\<close>

definition parts_of :: "string \<Rightarrow> string list" where
  "parts_of data = split CHR '' '' (trim data)"

definition command_of :: "string \<Rightarrow> string" where
  "command_of data = toUpperCase (hd (parts_of data))"

definition login_name :: "string \<Rightarrow> string" where
  "login_name data = trim (join CHR '' '' (drop 1 (parts_of data)))"

definition msg_text :: "string \<Rightarrow> string" where
  "msg_text data = trim (join CHR '' '' (drop 1 (parts_of data)))"

section \<open>Reading the trace\<close>

text \<open>The write events of one message to the sockets of a list that are not destroyed.\<close>

definition lines_to :: "sock set \<Rightarrow> string \<Rightarrow> sock list \<Rightarrow> event list" where
  "lines_to D message ts =
     map (\<lambda>t. SocketWrite t (message @ [CHR 0x0A])) (filter (\<lambda>t. t \<notin> D) ts)"

definition sockets_of :: "(string \<times> user_data) list \<Rightarrow> sock list" where
  "sockets_of m = map (\<lambda>e. socket (snd e)) m"

text \<open>The lines written to one socket, in order.\<close>

fun written_to :: "sock \<Rightarrow> event list \<Rightarrow> string list" where
  "written_to t [] = []"
| "written_to t (SocketWrite t' l # evs) =
     (if t' = t then l # written_to t evs else written_to t evs)"
| "written_to t (_ # evs) = written_to t evs"

text \<open>The events that lead from the trace of \<open>s\<close> to the longer trace of \<open>s'\<close>.\<close>

definition new_events :: "state \<Rightarrow> state \<Rightarrow> event list" where
  "new_events s s' = drop (length (trace s)) (trace s')"

text \<open>
  Whether a list of events, run from a registry with the keys \<open>K\<close>, writes a line to
  some socket at a moment when \<open>n\<close> is a key.
\<close>

fun sent_while_key :: "string \<Rightarrow> string set \<Rightarrow> event list \<Rightarrow> bool" where
  "sent_while_key n K [] = False"
| "sent_while_key n K (SocketWrite t l # evs) = (n \<in> K \<or> sent_while_key n K evs)"
| "sent_while_key n K (SocketDestroy t # evs) = sent_while_key n K evs"
| "sent_while_key n K (UsersSet k # evs) = sent_while_key n (insert k K) evs"
| "sent_while_key n K (UsersDelete k # evs) = sent_while_key n (K - {k}) evs"
| "sent_while_key n K (UsersClear # evs) = sent_while_key n {} evs"

text \<open>
  The keys of the registry after a list of events, run from the keys \<open>K\<close>; and whether
  every \<^verbatim>\<open>users.set\<close> in the list adds a name that is no key at that moment.
\<close>

fun keys_after :: "string set \<Rightarrow> event list \<Rightarrow> string set" where
  "keys_after K [] = K"
| "keys_after K (UsersSet k # evs) = keys_after (insert k K) evs"
| "keys_after K (UsersDelete k # evs) = keys_after (K - {k}) evs"
| "keys_after K (UsersClear # evs) = keys_after {} evs"
| "keys_after K (_ # evs) = keys_after K evs"

fun sets_fresh :: "string set \<Rightarrow> event list \<Rightarrow> bool" where
  "sets_fresh K [] = True"
| "sets_fresh K (UsersSet k # evs) = (k \<notin> K \<and> sets_fresh (insert k K) evs)"
| "sets_fresh K (UsersDelete k # evs) = sets_fresh (K - {k}) evs"
| "sets_fresh K (UsersClear # evs) = sets_fresh {} evs"
| "sets_fresh K (_ # evs) = sets_fresh K evs"

definition keys_of :: "state \<Rightarrow> string set" where
  "keys_of s = set (map fst (users s))"

text \<open>
  A step from \<open>s\<close> to \<open>s'\<close> that only extends the trace, by events that lead from the
  keys of \<open>s\<close> to those of \<open>s'\<close> and set no name that is a key.
\<close>

definition step_ok :: "state \<Rightarrow> state \<Rightarrow> bool" where
  "step_ok s s' \<longleftrightarrow>
     (\<exists>evs. trace s' = trace s @ evs \<and> keys_after (keys_of s) evs = keys_of s'
        \<and> sets_fresh (keys_of s) evs)"

section \<open>The idle sweep, step by step\<close>

text \<open>The test of the first loop of \<^verbatim>\<open>checkIdleUsers\<close> on one entry.\<close>

definition is_idle :: "int \<Rightarrow> string \<times> user_data \<Rightarrow> bool" where
  "is_idle now e \<longleftrightarrow> now - lastActivity (snd e) > IDLE_TIMEOUT \<and> \<not> disconnecting (snd e)"

text \<open>The body of its second loop on one element of \<^verbatim>\<open>usersToDisconnect\<close>.\<close>

definition evict :: "state \<Rightarrow> string \<times> sock \<Rightarrow> state" where
  "evict s e =
     handleDisconnect (sendToSocket s (snd e) ''INFO disconnected-due-to-inactivity'') (snd e)"

text \<open>
  The events of the second loop, written out for the elements of \<^verbatim>\<open>usersToDisconnect\<close>
  in turn, from the destroyed sockets \<open>D\<close> and the registry \<open>m\<close> of the moment: the
  notice to the socket of the element if it is not destroyed; then its teardown, which is
  the deletion of its name, the line \<^verbatim>\<open>INFO name disconnected\<close> to every socket that
  remains in the registry and is not destroyed, and the destruction of its socket if it is
  not destroyed.
\<close>

fun eviction_events ::
  "sock set \<Rightarrow> (string \<times> user_data) list \<Rightarrow> (string \<times> sock) list \<Rightarrow> event list" where
  "eviction_events D m [] = []"
| "eviction_events D m (p # sel) =
     lines_to D ''INFO disconnected-due-to-inactivity'' [snd p] @
     UsersDelete (fst p) #
     lines_to D (''INFO '' @ fst p @ '' disconnected'') (sockets_of (map_delete m (fst p))) @
     (if snd p \<in> D then [] else [SocketDestroy (snd p)]) @
     eviction_events (insert (snd p) D) (map_delete m (fst p)) sel"

text \<open>
  What the second loop relies on: the names still to be handled are distinct, and each of
  them is the one found for its socket.
\<close>

definition selected_ok :: "state \<Rightarrow> (string \<times> sock) list \<Rightarrow> bool" where
  "selected_ok s sel \<longleftrightarrow>
     wf s \<and> distinct (map fst sel) \<and>
     (\<forall>p \<in> set sel. getUsernameBySocket s (snd p) = Some (fst p))"

section \<open>Some runs of the server\<close>

text \<open>
  Alice logs in on socket 0 and Bob on socket 1; in \<open>bob_lost\<close> the transport has then
  destroyed the socket of Bob, and in \<open>bob_idle_lost\<close> Alice has sent a PING at
  time 65000 after that. In \<open>smith_online\<close> the second user is called
  \<^verbatim>\<open>john smith\<close>, and in \<open>smith_john_online\<close> a third one, \<^verbatim>\<open>john\<close>, is
  logged in on socket 2.
\<close>

definition alice_online :: state where
  "alice_online = handleCommand init 0 0 ''LOGIN alice''"

definition alice_bob_online :: state where
  "alice_bob_online = handleCommand alice_online 0 1 ''LOGIN bob''"

definition bob_lost :: state where
  "bob_lost = socket_lost alice_bob_online 1"

definition bob_idle_lost :: state where
  "bob_idle_lost = handleCommand bob_lost 65000 0 ''PING''"



section \<open>Strings: facts\<close>

lemma split_not_Nil: "split sep s \<noteq> []"
  by (induction s) (auto split: list.splits)

lemma join_split: "join sep (split sep s) = s"
proof (induction s)
  case Nil show ?case by simp
next
  case (Cons c cs)
  show ?case
  proof (cases "split sep cs")
    case Nil with split_not_Nil show ?thesis by blast
  next
    case (Cons t ts)
    with Cons.IH show ?thesis by (cases ts) auto
  qed
qed


lemma join_append:
  "xs \<noteq> [] \<Longrightarrow> ys \<noteq> [] \<Longrightarrow> join sep (xs @ ys) = join sep xs @ sep # join sep ys"
  by (induction sep xs rule: join.induct) (auto simp: neq_Nil_conv)

lemma trim_last: "trim s \<noteq> [] \<Longrightarrow> \<not> is_ws (last (trim s))"
  unfolding trim_def
  by (metis (no_types, lifting) dropWhile_eq_Nil_conv hd_dropWhile last_rev rev.simps(1) rev_rev_ident)

lemma trim_nonempty: "s \<noteq> [] \<Longrightarrow> \<not> is_ws (last s) \<Longrightarrow> trim s \<noteq> []"
  unfolding trim_def
  by (metis Nil_is_rev_conv dropWhile_eq_Nil_conv dropWhile_last last_in_set set_rev)

section \<open>Sending and the registry: facts\<close>

lemma sendToSocket_users [simp]: "users (sendToSocket s t m) = users s"
  by (simp add: sendToSocket_def socket_write_def)

lemma sendToSocket_destroyed [simp]: "destroyed (sendToSocket s t m) = destroyed s"
  by (simp add: sendToSocket_def socket_write_def)

lemma sendToSocket_trace:
  "trace (sendToSocket s t m) = trace s @ lines_to (destroyed s) m [t]"
  by (simp add: sendToSocket_def socket_write_def lines_to_def)

lemma sendToSocket_eq:
  "sendToSocket s t m = s\<lparr>trace := trace s @ lines_to (destroyed s) m [t]\<rparr>"
  by (simp add: sendToSocket_def socket_write_def lines_to_def)

lemma send_loop:
  "foldl (\<lambda>s' e. if socket (snd e) \<notin> destroyed s' then sendToSocket s' (socket (snd e)) m else s')
     s es = s\<lparr>trace := trace s @ lines_to (destroyed s) m (sockets_of es)\<rparr>"
proof (induction es arbitrary: s)
  case Nil
  show ?case by (simp add: lines_to_def sockets_of_def)
next
  case (Cons e es)
  show ?case
    by (simp add: Cons.IH sendToSocket_eq lines_to_def sockets_of_def)
qed

lemma broadcastToAll_eq:
  "broadcastToAll s m = s\<lparr>trace := trace s @ lines_to (destroyed s) m (sockets_of (users s))\<rparr>"
  by (simp add: broadcastToAll_def send_loop)

lemma broadcast_None_eq:
  "broadcast s m None = s\<lparr>trace := trace s @ lines_to (destroyed s) m (sockets_of (users s))\<rparr>"
  by (simp add: broadcast_def send_loop)

lemma who_loop:
  "foldl (\<lambda>s' e. sendToSocket s' t (f e)) s es =
     s\<lparr>trace := trace s @ concat (map (\<lambda>e. lines_to (destroyed s) (f e) [t]) es)\<rparr>"
proof (induction es arbitrary: s)
  case Nil
  show ?case by simp
next
  case (Cons e es)
  show ?case by (simp add: Cons.IH) (simp add: sendToSocket_eq)
qed


lemma wf_users_cong: "users s' = users s \<Longrightarrow> wf s' = wf s"
  by (simp add: wf_def)

lemma wf_sendToSocket [simp]: "wf (sendToSocket s t m) = wf s"
  by (rule wf_users_cong) simp

lemma find_socket_None: "find_socket m sock = None \<longleftrightarrow> sock \<notin> set (sockets_of m)"
proof (induction m)
  case Nil
  show ?case by (simp add: sockets_of_def)
next
  case (Cons e m)
  obtain k v where e: "e = (k, v)" by (cases e)
  from Cons.IH have "find_socket m sock = None \<longleftrightarrow> sock \<notin> set (sockets_of m)" .
  moreover have "set (sockets_of (e # m)) = insert (socket v) (set (sockets_of m))"
    by (simp add: sockets_of_def e)
  ultimately show ?case using e by auto
qed

lemma find_socket_Some:
  "find_socket m sock = Some u \<Longrightarrow> \<exists>d. (u, d) \<in> set m \<and> socket d = sock"
proof (induction m)
  case Nil
  then show ?case by simp
next
  case (Cons e m)
  obtain k v where e: "e = (k, v)" by (cases e)
  show ?case
  proof (cases "socket v = sock")
    case True
    with Cons.prems e show ?thesis by auto
  next
    case False
    with Cons.prems e have "find_socket m sock = Some u" by simp
    with Cons.IH show ?thesis by auto
  qed
qed

lemma find_socket_unique:
  "distinct (sockets_of m) \<Longrightarrow> (u, d) \<in> set m \<Longrightarrow> find_socket m (socket d) = Some u"
proof (induction m)
  case Nil
  then show ?case by simp
next
  case (Cons e m)
  obtain k v where e: "e = (k, v)" by (cases e)
  show ?case
  proof (cases "(u, d) = e")
    case True
    with e show ?thesis by simp
  next
    case False
    with Cons.prems have mem: "(u, d) \<in> set m" by simp
    then have "socket d \<in> set (sockets_of m)"
      unfolding sockets_of_def by force
    with Cons.prems(1) e have "socket v \<noteq> socket d"
      by (auto simp: sockets_of_def simp del: set_map)
    moreover from Cons.prems(1) have "distinct (sockets_of m)"
      by (simp add: sockets_of_def)
    ultimately show ?thesis using Cons.IH mem e by simp
  qed
qed

lemma map_has_iff: "map_has m k \<longleftrightarrow> map_of m k \<noteq> None"
  by (simp add: map_has_def map_of_eq_None_iff)

lemma map_set_absent: "\<not> map_has m k \<Longrightarrow> map_set m k v = m @ [(k, v)]"
  by (induction m) (auto simp: map_has_def)

lemma map_delete_keys: "map fst (map_delete m k) = filter (\<lambda>x. x \<noteq> k) (map fst m)"
  by (simp add: map_delete_def filter_map comp_def)

lemma distinct_sockets_delete:
  "distinct (sockets_of m) \<Longrightarrow> distinct (sockets_of (map_delete m k))"
  by (simp add: sockets_of_def map_delete_def distinct_map_filter)

lemma socket_gone:
  "distinct (sockets_of m) \<Longrightarrow> (k, d) \<in> set m \<Longrightarrow>
   socket d \<notin> set (sockets_of (map_delete m k))"
proof
  assume dist: "distinct (sockets_of m)" and mem: "(k, d) \<in> set m"
    and "socket d \<in> set (sockets_of (map_delete m k))"
  then obtain k' d' where e: "(k', d') \<in> set m" "k' \<noteq> k" "socket d' = socket d"
    by (auto simp: sockets_of_def map_delete_def)
  from dist e(1) have "find_socket m (socket d') = Some k'" by (rule find_socket_unique)
  moreover from dist mem have "find_socket m (socket d) = Some k" by (rule find_socket_unique)
  ultimately show False using e by simp
qed

lemma map_delete_marked:
  "map_delete (map (\<lambda>(k, d). if k = u then (k, f d) else (k, d)) m) u = map_delete m u"
  by (induction m) (auto simp: map_delete_def split: if_splits)

lemma wf_delete: "wf s \<Longrightarrow> wf (s\<lparr>users := map_delete (users s) k\<rparr>)"
proof -
  assume w: "wf s"
  then have "distinct (map fst (map_delete (users s) k))"
    by (simp add: wf_def map_delete_keys)
  moreover from w have "distinct (sockets_of (map_delete (users s) k))"
    by (simp add: wf_def distinct_sockets_delete sockets_of_def [symmetric])
  moreover from w have "\<forall>e \<in> set (map_delete (users s) k). fst e \<noteq> [] \<and> \<not> disconnecting (snd e)"
    by (simp add: wf_def map_delete_def)
  ultimately show ?thesis by (simp add: wf_def sockets_of_def)
qed

section \<open>The handlers, case by case, and the invariant\<close>

lemma map_get_mem: "distinct (map fst m) \<Longrightarrow> (k, d) \<in> set m \<Longrightarrow> map_get m k = Some d"
  by (simp add: map_get_def)

lemma map_get_marked:
  "map_get (map (\<lambda>(k, d). if k = u then (k, f d) else (k, d)) m) k' =
     (if k' = u then map_option f (map_get m k') else map_get m k')"
  by (induction m) (auto simp: map_get_def)

lemma ensure_destroyed_eq:
  "ensure_destroyed s sock =
     s\<lparr>destroyed := insert sock (destroyed s),
       trace := trace s @ (if sock \<in> destroyed s then [] else [SocketDestroy sock])\<rparr>"
  by (simp add: ensure_destroyed_def socket_destroy_def insert_absorb)

lemma handleDisconnect_no_session:
  "getUsernameBySocket s sock = None \<Longrightarrow> handleDisconnect s sock = ensure_destroyed s sock"
  by (simp add: handleDisconnect_def)

lemma handleDisconnect_session:
  assumes w: "wf s" and u: "getUsernameBySocket s sock = Some name"
  shows "handleDisconnect s sock =
     \<lparr>users = map_delete (users s) name,
      destroyed = insert sock (destroyed s),
      trace = trace s @ UsersDelete name #
        lines_to (destroyed s) (''INFO '' @ name @ '' disconnected'')
          (sockets_of (map_delete (users s) name)) @
        (if sock \<in> destroyed s then [] else [SocketDestroy sock])\<rparr>"
proof -
  from u obtain d where d: "(name, d) \<in> set (users s)" "socket d = sock"
    unfolding getUsernameBySocket_def by (auto dest: find_socket_Some)
  from w d have ne: "name \<noteq> []" and nd: "\<not> disconnecting d"
    by (auto simp: wf_def)
  from w d have g: "map_get (users s) name = Some d"
    by (simp add: wf_def map_get_mem)
  show ?thesis
    using u ne nd g
    by (simp add: handleDisconnect_def users_delete_def mark_disconnecting_def
        broadcast_None_eq ensure_destroyed_eq map_delete_marked)
qed

lemma updateActivity_keys [simp]: "map fst (users (updateActivity s now sock)) = map fst (users s)"
  by (auto simp: updateActivity_def split: option.splits)

lemma updateActivity_sockets [simp]:
  "sockets_of (users (updateActivity s now sock)) = sockets_of (users s)"
  by (auto simp: updateActivity_def sockets_of_def split: option.splits)

lemma updateActivity_destroyed [simp]: "destroyed (updateActivity s now sock) = destroyed s"
  by (auto simp: updateActivity_def split: option.splits)

lemma updateActivity_trace [simp]: "trace (updateActivity s now sock) = trace s"
  by (auto simp: updateActivity_def split: option.splits)

lemma find_socket_touch:
  "find_socket (map (\<lambda>(k, d). if k = u then (k, d\<lparr>lastActivity := now\<rparr>) else (k, d)) m) t =
     find_socket m t"
  by (induction m) auto

lemma updateActivity_getUsername [simp]:
  "getUsernameBySocket (updateActivity s now sock) t = getUsernameBySocket s t"
  by (auto simp: updateActivity_def getUsernameBySocket_def find_socket_touch split: option.splits)

lemma updateActivity_map_has [simp]:
  "map_has (users (updateActivity s now sock)) k = map_has (users s) k"
  by (simp add: map_has_def)

lemma updateActivity_no_session:
  "getUsernameBySocket s sock = None \<Longrightarrow> updateActivity s now sock = s"
  by (simp add: updateActivity_def)

lemma wf_updateActivity: "wf s \<Longrightarrow> wf (updateActivity s now sock)"
proof -
  assume w: "wf s"
  have "\<forall>e \<in> set (users (updateActivity s now sock)). fst e \<noteq> [] \<and> \<not> disconnecting (snd e)"
    using w by (auto simp: updateActivity_def wf_def split: option.splits if_splits)
  moreover have "distinct (map fst (users (updateActivity s now sock)))"
    using w by (simp add: wf_def)
  moreover have "distinct (sockets_of (users (updateActivity s now sock)))"
    using w by (simp add: wf_def sockets_of_def [symmetric])
  ultimately show ?thesis by (simp add: wf_def sockets_of_def)
qed

lemma wf_login:
  assumes w: "wf s" and k: "\<not> map_has (users s) n" "n \<noteq> []"
    and t: "getUsernameBySocket s sock = None"
  shows "wf (s\<lparr>users := map_set (users s) n \<lparr>socket = sock, lastActivity = now, disconnecting = False\<rparr>\<rparr>)"
proof -
  from t have "sock \<notin> set (sockets_of (users s))"
    by (simp add: getUsernameBySocket_def find_socket_None)
  with w k show ?thesis
    by (auto simp: wf_def map_set_absent map_has_def sockets_of_def)
qed

lemma handleCommand_blank: "trim data = [] \<Longrightarrow> handleCommand s now sock data = s"
  by (simp add: handleCommand_def)

lemma handleCommand_login_again:
  "trim data \<noteq> [] \<Longrightarrow> command_of data = ''LOGIN'' \<Longrightarrow>
   getUsernameBySocket s sock = Some name \<Longrightarrow> name \<noteq> [] \<Longrightarrow>
   handleCommand s now sock data =
     sendToSocket (updateActivity s now sock) sock ''ERR already-logged-in''"
  by (simp add: handleCommand_def Let_def command_of_def parts_of_def)

lemma handleCommand_login_new:
  "trim data \<noteq> [] \<Longrightarrow> command_of data = ''LOGIN'' \<Longrightarrow>
   getUsernameBySocket s sock = None \<Longrightarrow>
   handleCommand s now sock data =
     (let newUsername = trim (join CHR '' '' (drop 1 (parts_of data))) in
      if newUsername = [] then sendToSocket s sock ''ERR invalid-username''
      else if map_has (users s) newUsername then sendToSocket s sock ''ERR username-taken''
      else sendToSocket
             (users_set s newUsername \<lparr>socket = sock, lastActivity = now, disconnecting = False\<rparr>)
             sock ''OK'')"
  by (simp add: handleCommand_def Let_def command_of_def parts_of_def updateActivity_no_session)

lemma handleCommand_not_logged_in:
  "trim data \<noteq> [] \<Longrightarrow> command_of data \<noteq> ''LOGIN'' \<Longrightarrow>
   getUsernameBySocket s sock = None \<Longrightarrow>
   handleCommand s now sock data = sendToSocket s sock ''ERR not-logged-in''"
  by (simp add: handleCommand_def Let_def command_of_def parts_of_def updateActivity_no_session)

lemma handleCommand_MSG:
  "trim data \<noteq> [] \<Longrightarrow> command_of data = ''MSG'' \<Longrightarrow>
   getUsernameBySocket s sock = Some name \<Longrightarrow> name \<noteq> [] \<Longrightarrow>
   handleCommand s now sock data =
     (let s1 = updateActivity s now sock;
          text = trim (join CHR '' '' (drop 1 (parts_of data)))
      in if text = [] then sendToSocket s1 sock ''ERR empty-message''
         else broadcastToAll s1 (''MSG '' @ name @ '' '' @ text))"
  by (simp add: handleCommand_def Let_def command_of_def parts_of_def)

lemma handleCommand_WHO:
  "trim data \<noteq> [] \<Longrightarrow> command_of data = ''WHO'' \<Longrightarrow>
   getUsernameBySocket s sock = Some name \<Longrightarrow> name \<noteq> [] \<Longrightarrow>
   handleCommand s now sock data =
     (let s1 = updateActivity s now sock in
      if length (users s1) = 0 then sendToSocket s1 sock ''INFO no-users-online''
      else foldl (\<lambda>s' e. sendToSocket s' sock (''USER '' @ fst e)) s1 (users s1))"
  by (simp add: handleCommand_def Let_def command_of_def parts_of_def)

lemma handleCommand_DM:
  "trim data \<noteq> [] \<Longrightarrow> command_of data = ''DM'' \<Longrightarrow>
   getUsernameBySocket s sock = Some name \<Longrightarrow> name \<noteq> [] \<Longrightarrow>
   handleCommand s now sock data =
     (let s1 = updateActivity s now sock; parts = parts_of data in
      if length parts < 3 then sendToSocket s1 sock ''ERR invalid-dm-format''
      else
        let targetUsername = parts ! 1;
            text = trim (join CHR '' '' (drop 2 parts))
        in
        if text = [] then sendToSocket s1 sock ''ERR empty-message''
        else if \<not> map_has (users s1) targetUsername
        then sendToSocket s1 sock ''ERR user-not-found''
        else
          (case map_get (users s1) targetUsername of
             None \<Rightarrow> s1
           | Some targetData \<Rightarrow>
               if socket targetData \<in> destroyed s1
               then sendToSocket s1 sock ''ERR user-not-found''
               else sendToSocket
                      (sendToSocket s1 (socket targetData) (''DM '' @ name @ '' '' @ text))
                      sock (''DM-SENT '' @ targetUsername)))"
  by (simp add: handleCommand_def Let_def command_of_def parts_of_def)

lemma handleCommand_other:
  "trim data \<noteq> [] \<Longrightarrow> command_of data \<notin> {''LOGIN'', ''MSG'', ''WHO'', ''DM''} \<Longrightarrow>
   getUsernameBySocket s sock = Some name \<Longrightarrow> name \<noteq> [] \<Longrightarrow>
   handleCommand s now sock data =
     sendToSocket (updateActivity s now sock) sock
       (if command_of data = ''PING'' then ''PONG'' else ''ERR unknown-command'')"
  by (simp add: handleCommand_def Let_def command_of_def parts_of_def)

lemma session_name:
  "wf s \<Longrightarrow> getUsernameBySocket s sock = Some name \<Longrightarrow> name \<noteq> []"
proof -
  assume w: "wf s" and u: "getUsernameBySocket s sock = Some name"
  from u obtain d where "(name, d) \<in> set (users s)"
    unfolding getUsernameBySocket_def by (auto dest: find_socket_Some)
  with w show ?thesis by (auto simp: wf_def)
qed

lemma handleCommand_session_users:
  assumes u: "getUsernameBySocket s sock = Some name" "name \<noteq> []"
  shows "users (handleCommand s now sock data) =
           (if trim data = [] then users s else users (updateActivity s now sock))"
proof (cases "trim data = []")
  case True
  then show ?thesis by (simp add: handleCommand_blank)
next
  case False
  consider "command_of data = ''LOGIN''" | "command_of data = ''MSG''"
    | "command_of data = ''WHO''" | "command_of data = ''DM''"
    | "command_of data \<notin> {''LOGIN'', ''MSG'', ''WHO'', ''DM''}" by auto
  then show ?thesis
  proof cases
    case 1
    with False u show ?thesis by (simp add: handleCommand_login_again)
  next
    case 2
    with False u show ?thesis by (simp add: handleCommand_MSG Let_def broadcastToAll_eq)
  next
    case 3
    with False u show ?thesis by (simp add: handleCommand_WHO Let_def who_loop)
  next
    case 4
    with False u show ?thesis
      by (simp add: handleCommand_DM Let_def split: option.splits)
  next
    case 5
    with False u show ?thesis by (simp add: handleCommand_other)
  qed
qed

lemma wf_handleCommand:
  assumes w: "wf s"
  shows "wf (handleCommand s now sock data)"
proof (cases "getUsernameBySocket s sock")
  case None
  show ?thesis
  proof (cases "trim data = []")
    case True
    with w show ?thesis by (simp add: handleCommand_blank)
  next
    case False
    show ?thesis
    proof (cases "command_of data = ''LOGIN''")
      case True
      let ?n = "trim (join CHR '' '' (drop 1 (parts_of data)))"
      let ?d = "\<lparr>socket = sock, lastActivity = now, disconnecting = False\<rparr>"
      have "wf (users_set s ?n ?d)" if "?n \<noteq> []" "\<not> map_has (users s) ?n"
      proof -
        from w that None have "wf (s\<lparr>users := map_set (users s) ?n ?d\<rparr>)"
          by (intro wf_login)
        then show ?thesis
          by (rule wf_users_cong [THEN iffD2, rotated]) (simp add: users_set_def)
      qed
      with w False True None show ?thesis
        by (simp add: handleCommand_login_new Let_def)
    next
      case False
      with w None \<open>trim data \<noteq> []\<close> show ?thesis
        by (simp add: handleCommand_not_logged_in)
    qed
  qed
next
  case (Some name)
  with w have ne: "name \<noteq> []" by (rule session_name)
  have "wf (updateActivity s now sock)" using w by (rule wf_updateActivity)
  with w show ?thesis
    using handleCommand_session_users [OF Some ne, of now data]
    by (cases "trim data = []") (simp_all add: wf_def)
qed

lemma wf_ensure_destroyed [simp]: "wf (ensure_destroyed s sock) = wf s"
  by (rule wf_users_cong) (simp add: ensure_destroyed_eq)

lemma wf_handleDisconnect:
  assumes w: "wf s"
  shows "wf (handleDisconnect s sock)"
proof (cases "getUsernameBySocket s sock")
  case None
  with w show ?thesis by (simp add: handleDisconnect_no_session)
next
  case (Some name)
  from w have "wf (s\<lparr>users := map_delete (users s) name\<rparr>)" by (rule wf_delete)
  then show ?thesis
    by (rule wf_users_cong [THEN iffD2, rotated]) (simp add: handleDisconnect_session [OF w Some])
qed

lemma wf_idle_loop:
  "wf s \<Longrightarrow>
   wf (foldl (\<lambda>s' e. handleDisconnect (sendToSocket s' (snd e) m) (snd e)) s es)"
  by (induction es arbitrary: s) (simp_all add: wf_handleDisconnect)

lemma wf_checkIdleUsers: "wf s \<Longrightarrow> wf (checkIdleUsers s now)"
  by (simp add: checkIdleUsers_def wf_idle_loop)

lemma wf_shutdown: "wf (shutdown s)"
  by (simp add: shutdown_def Let_def users_clear_def wf_def)

lemma wf_socket_lost: "wf s \<Longrightarrow> wf (socket_lost s sock)"
  by (simp add: socket_lost_def wf_def)

lemma wf_init: "wf init"
  by (simp add: init_def wf_def)

lemma reachable_wf: "reachable s \<Longrightarrow> wf s"
  by (induction rule: reachable.induct)
    (simp_all add: wf_init wf_handleCommand wf_handleDisconnect wf_checkIdleUsers
       wf_socket_lost wf_shutdown)

section \<open>Tokens of a trimmed line: facts\<close>

lemma command_nonblank: "command_of data \<noteq> [] \<Longrightarrow> trim data \<noteq> []"
  by (auto simp: command_of_def parts_of_def toUpperCase_def)

lemma updateActivity_falsy:
  "\<not> truthy (getUsernameBySocket s sock) \<Longrightarrow> updateActivity s now sock = s"
  by (cases "getUsernameBySocket s sock") (auto simp: updateActivity_def)

lemma handleCommand_falsy:
  "trim data \<noteq> [] \<Longrightarrow> command_of data \<noteq> ''LOGIN'' \<Longrightarrow>
   \<not> truthy (getUsernameBySocket s sock) \<Longrightarrow>
   handleCommand s now sock data = sendToSocket s sock ''ERR not-logged-in''"
  by (simp add: handleCommand_def Let_def command_of_def parts_of_def updateActivity_falsy)

lemma is_ws_space: "is_ws CHR '' ''"
  by (simp add: is_ws_def)

lemma join_drop_suffix:
  assumes "n < length ps" "0 < n"
  shows "join sep ps = join sep (take n ps) @ sep # join sep (drop n ps)"
proof -
  have "ps = take n ps @ drop n ps" by simp
  moreover from assms have "take n ps \<noteq> []" "drop n ps \<noteq> []" by auto
  ultimately show ?thesis using join_append by metis
qed

lemma dm_text_nonempty:
  assumes len: "3 \<le> length (parts_of data)"
  shows "trim (join CHR '' '' (drop 2 (parts_of data))) \<noteq> []"
    and "last (parts_of data) \<noteq> []"
proof -
  let ?m = "trim data" and ?ps = "parts_of data"
  have m: "join CHR '' '' ?ps = ?m" by (simp add: parts_of_def join_split)
  from len have "?m \<noteq> []" by (auto simp: parts_of_def)
  then have nws: "\<not> is_ws (last ?m)" by (rule trim_last)
  have split2: "?m = join CHR '' '' (take 2 ?ps) @ CHR '' '' # join CHR '' '' (drop 2 ?ps)"
    using join_drop_suffix [of 2 ?ps "CHR '' ''"] len m by simp
  have ne: "join CHR '' '' (drop 2 ?ps) \<noteq> []"
  proof
    assume "join CHR '' '' (drop 2 ?ps) = []"
    with split2 have "last ?m = CHR '' ''" by (metis last_snoc)
    with nws is_ws_space show False by simp
  qed
  with split2 have "last (join CHR '' '' (drop 2 ?ps)) = last ?m"
    by (metis last_appendR last_ConsR list.distinct(1))
  with nws ne show "trim (join CHR '' '' (drop 2 ?ps)) \<noteq> []"
    by (simp add: trim_nonempty)
  have splitl: "?m = join CHR '' '' (butlast ?ps) @ CHR '' '' # join CHR '' '' [last ?ps]"
    using join_append [of "butlast ?ps" "[last ?ps]" "CHR '' ''"] len m
    by (cases ?ps rule: rev_cases) force+
  show "last ?ps \<noteq> []"
  proof
    assume "last ?ps = []"
    with splitl have "last ?m = CHR '' ''" by (metis join.simps(2) last_snoc)
    with nws is_ws_space show False by simp
  qed
qed

section \<open>Commands before LOGIN\<close>

text \<open>
  C8. A line that is not blank arrives on a socket that is not destroyed and has no entry
  in \<^verbatim>\<open>users\<close>. If its command word, in upper case, is not LOGIN, the socket is sent
  the one line \<^verbatim>\<open>ERR not-logged-in\<close> and nothing else happens: the registry, with
  every entry of it, and the set of destroyed sockets stay as they were.
\<close>

theorem not_logged_in_reply:
  assumes "trim data \<noteq> []" and "command_of data \<noteq> ''LOGIN''"
    and "getUsernameBySocket s sock = None" and "sock \<notin> destroyed s"
  shows "handleCommand s now sock data =
           s\<lparr>trace := trace s @ [SocketWrite sock (''ERR not-logged-in'' @ [CHR 0x0A])]\<rparr>
         \<and> users (handleCommand s now sock data) = users s
         \<and> destroyed (handleCommand s now sock data) = destroyed s"
  using assms by (simp add: handleCommand_not_logged_in sendToSocket_eq lines_to_def)

text \<open>
  C8 on the empty registry: a question on socket 3.
\<close>

theorem not_logged_in_reply_witness:
  "trim '' who is there'' \<noteq> [] \<and> command_of '' who is there'' \<noteq> ''LOGIN''
   \<and> getUsernameBySocket init 3 = None \<and> 3 \<notin> destroyed init
   \<and> handleCommand init 7 3 '' who is there'' =
       init\<lparr>trace := trace init @ [SocketWrite 3 (''ERR not-logged-in'' @ [CHR 0x0A])]\<rparr>"
proof -
  have h1: "trim '' who is there'' \<noteq> []"
    by (simp add: trim_def is_ws_def)
  have h2: "command_of '' who is there'' \<noteq> ''LOGIN''"
    by (simp add: command_of_def parts_of_def trim_def is_ws_def toUpperCase_def upper_char_def)
  have h3: "getUsernameBySocket init 3 = None"
    by (simp add: getUsernameBySocket_def init_def)
  have h4: "3 \<notin> destroyed init"
    by (simp add: init_def)
  show ?thesis
    using h1 h2 h3 h4 not_logged_in_reply [OF h1 h2 h3 h4, of 7] by simp
qed

section \<open>The text of a direct message\<close>

lemma sendToSocket_events:
  "set (trace (sendToSocket s t m)) \<subseteq> insert (SocketWrite t (m @ [CHR 0x0A])) (set (trace s))"
  by (auto simp: sendToSocket_trace lines_to_def)

text \<open>
  C10. The branch of DM that answers \<^verbatim>\<open>ERR empty-message\<close> is never taken. The line
  is trimmed before it is split, so when it has three tokens or more the last token is not
  empty and the text, the tokens from the third on joined by spaces and trimmed, is not
  empty. A DM command therefore writes \<^verbatim>\<open>ERR empty-message\<close> to no socket: any such
  event in the trace after the command was there before it.
\<close>

theorem dm_never_empty_message:
  "(3 \<le> length (parts_of data) \<longrightarrow>
      last (parts_of data) \<noteq> [] \<and> trim (join CHR '' '' (drop 2 (parts_of data))) \<noteq> [])
   \<and> (command_of data = ''DM'' \<longrightarrow>
      (\<forall>t. SocketWrite t (''ERR empty-message'' @ [CHR 0x0A])
              \<in> set (trace (handleCommand s now sock data)) \<longrightarrow>
           SocketWrite t (''ERR empty-message'' @ [CHR 0x0A]) \<in> set (trace s)))"
proof (intro conjI impI allI)
  assume "3 \<le> length (parts_of data)"
  then show "last (parts_of data) \<noteq> []"
    and "trim (join CHR '' '' (drop 2 (parts_of data))) \<noteq> []"
    by (simp_all add: dm_text_nonempty)
next
  fix t
  let ?e = "SocketWrite t (''ERR empty-message'' @ [CHR 0x0A])"
  assume dm: "command_of data = ''DM''"
    and mem: "?e \<in> set (trace (handleCommand s now sock data))"
  from dm have nb: "trim data \<noteq> []" by (simp add: command_nonblank)
  show "?e \<in> set (trace s)"
  proof (cases "truthy (getUsernameBySocket s sock)")
    case False
    with dm nb have "handleCommand s now sock data = sendToSocket s sock ''ERR not-logged-in''"
      by (simp add: handleCommand_falsy)
    with mem show ?thesis
      using sendToSocket_events [of s sock "''ERR not-logged-in''"] by auto
  next
    case True
    then obtain name where u: "getUsernameBySocket s sock = Some name" "name \<noteq> []"
      by (cases "getUsernameBySocket s sock") auto
    let ?s1 = "updateActivity s now sock"
    show ?thesis
    proof (cases "length (parts_of data) < 3")
      case True
      with dm nb u have "handleCommand s now sock data = sendToSocket ?s1 sock ''ERR invalid-dm-format''"
        by (simp add: handleCommand_DM)
      with mem show ?thesis
        using sendToSocket_events [of ?s1 sock "''ERR invalid-dm-format''"] by auto
    next
      case False
      then have nonempty: "trim (join CHR '' '' (drop 2 (parts_of data))) \<noteq> []"
        by (simp add: dm_text_nonempty)
      from mem False nonempty show ?thesis
        unfolding handleCommand_DM [OF nb dm u] Let_def
        by (auto simp: sendToSocket_trace lines_to_def split: if_splits option.splits)
    qed
  qed
qed

subsection \<open>Evaluating a run\<close>

lemmas string_defs = trim_def is_ws_def parts_of_def command_of_def toUpperCase_def upper_char_def
  char_of_def bit_simps

lemmas run_defs = handleCommand_def handleDisconnect_def checkIdleUsers_def usersToDisconnect_def
  updateActivity_def getUsernameBySocket_def sendToSocket_def broadcast_def broadcastToAll_def
  ensure_destroyed_def mark_disconnecting_def socket_write_def socket_destroy_def users_set_def
  users_delete_def users_clear_def socket_lost_def map_has_def map_get_def map_delete_def
  init_def IDLE_TIMEOUT_def Let_def

lemma alice_online_eq:
  "alice_online =
     \<lparr>users = [(''alice'', \<lparr>socket = 0, lastActivity = 0, disconnecting = False\<rparr>)],
      destroyed = {},
      trace = [UsersSet ''alice'', SocketWrite 0 (''OK'' @ [CHR 0x0A])]\<rparr>"
  by (simp add: alice_online_def run_defs string_defs)

text \<open>
  C10 on a line of Alice with a doubled space and a trailing one.
\<close>

theorem dm_never_empty_message_witness:
  "3 \<le> length (parts_of ''dm bob  hello '')
   \<and> last (parts_of ''dm bob  hello '') \<noteq> []
   \<and> trim (join CHR '' '' (drop 2 (parts_of ''dm bob  hello ''))) \<noteq> []
   \<and> command_of ''dm bob  hello '' = ''DM''
   \<and> SocketWrite 0 (''ERR empty-message'' @ [CHR 0x0A])
         \<notin> set (trace (handleCommand alice_online 1 0 ''dm bob  hello ''))"
proof -
  have h1: "3 \<le> length (parts_of ''dm bob  hello '')"
    by (simp add: string_defs)
  have h2: "command_of ''dm bob  hello '' = ''DM''"
    by (simp add: string_defs)
  have h3: "SocketWrite 0 (''ERR empty-message'' @ [CHR 0x0A]) \<notin> set (trace alice_online)"
    by (simp add: alice_online_eq)
  show ?thesis
    using h1 h2 h3 dm_never_empty_message [of "''dm bob  hello ''" alice_online 1 0] by blast
qed

section \<open>Direct messages\<close>

lemma updateActivity_socket_of:
  "map_option socket (map_get (users (updateActivity s now sock)) k) =
     map_option socket (map_get (users s) k)"
  by (cases "map_get (users s) k")
     (auto simp: updateActivity_def map_get_marked split: option.splits)

lemma updateActivity_get_None:
  "map_get (users (updateActivity s now sock)) k = None \<longleftrightarrow> map_get (users s) k = None"
  using updateActivity_socket_of [of s now sock k] by (metis option.map_disc_iff)

lemma map_has_get: "map_has m k \<longleftrightarrow> map_get m k \<noteq> None"
  by (simp add: map_has_iff map_get_def)

lemma dm_events:
  assumes "wf s" and "getUsernameBySocket s sock = Some sender" and "sock \<notin> destroyed s"
    and "command_of data = ''DM''"
  shows "handleCommand s now sock data =
    (updateActivity s now sock)\<lparr>trace := trace s @
       (if length (parts_of data) < 3
        then [SocketWrite sock (''ERR invalid-dm-format'' @ [CHR 0x0A])]
        else
          (case map_get (users s) (parts_of data ! 1) of
             None \<Rightarrow> [SocketWrite sock (''ERR user-not-found'' @ [CHR 0x0A])]
           | Some targetData \<Rightarrow>
               if socket targetData \<in> destroyed s
               then [SocketWrite sock (''ERR user-not-found'' @ [CHR 0x0A])]
               else [SocketWrite (socket targetData)
                       (''DM '' @ sender @ '' '' @ trim (join CHR '' '' (drop 2 (parts_of data)))
                          @ [CHR 0x0A]),
                     SocketWrite sock (''DM-SENT '' @ parts_of data ! 1 @ [CHR 0x0A])]))\<rparr>"
proof -
  let ?s1 = "updateActivity s now sock"
  let ?target = "parts_of data ! 1"
  from assms(1,2) have ne: "sender \<noteq> []" by (rule session_name)
  from assms(4) have nb: "trim data \<noteq> []" by (simp add: command_nonblank)
  note dm = handleCommand_DM [OF nb assms(4) assms(2) ne, of now]
  show ?thesis
  proof (cases "length (parts_of data) < 3")
    case True
    with assms(3) show ?thesis
      by (simp add: dm sendToSocket_eq lines_to_def)
  next
    case False
    then have nonempty: "trim (join CHR '' '' (drop 2 (parts_of data))) \<noteq> []"
      by (simp add: dm_text_nonempty)
    show ?thesis
    proof (cases "map_get (users s) ?target")
      case None
      then have "\<not> map_has (users ?s1) ?target"
        by (simp add: map_has_get updateActivity_get_None del: updateActivity_map_has)
      with False nonempty None assms(3) show ?thesis
        by (simp add: dm Let_def sendToSocket_eq lines_to_def)
    next
      case (Some d)
      then have has: "map_has (users ?s1) ?target"
        by (simp add: map_has_get updateActivity_get_None del: updateActivity_map_has)
      then obtain d1 where d1: "map_get (users ?s1) ?target = Some d1"
        by (auto simp: map_has_get simp del: updateActivity_map_has)
      with Some have "socket d1 = socket d"
        using updateActivity_socket_of [of s now sock ?target] by simp
      with False nonempty Some has d1 assms(3) show ?thesis
        by (simp add: dm Let_def sendToSocket_eq lines_to_def del: updateActivity_map_has)
    qed
  qed
qed

text \<open>
  C5. A DM command from a socket that is not destroyed and has a session. With fewer than
  three tokens the sender is sent \<^verbatim>\<open>ERR invalid-dm-format\<close>. Otherwise the target is
  the second token: if it is no key of the registry, or its socket is destroyed, the
  sender is sent \<^verbatim>\<open>ERR user-not-found\<close> and no other socket is written to; else
  the socket of the target is sent \<^verbatim>\<open>DM sender text\<close> and then the sender is sent
  \<^verbatim>\<open>DM-SENT target\<close>, in two writes. Nothing else changes but the activity time of the
  sender.
\<close>

theorem dm_outcomes:
  assumes "wf s" and "getUsernameBySocket s sock = Some sender" and "sock \<notin> destroyed s"
    and "command_of data = ''DM''"
  shows "handleCommand s now sock data =
    (updateActivity s now sock)\<lparr>trace := trace s @
       (if length (parts_of data) < 3
        then [SocketWrite sock (''ERR invalid-dm-format'' @ [CHR 0x0A])]
        else
          (case map_get (users s) (parts_of data ! 1) of
             None \<Rightarrow> [SocketWrite sock (''ERR user-not-found'' @ [CHR 0x0A])]
           | Some targetData \<Rightarrow>
               if socket targetData \<in> destroyed s
               then [SocketWrite sock (''ERR user-not-found'' @ [CHR 0x0A])]
               else [SocketWrite (socket targetData)
                       (''DM '' @ sender @ '' '' @ trim (join CHR '' '' (drop 2 (parts_of data)))
                          @ [CHR 0x0A]),
                     SocketWrite sock (''DM-SENT '' @ parts_of data ! 1 @ [CHR 0x0A])]))\<rparr>"
  using assms by (rule dm_events)

lemma alice_bob_online_eq:
  "alice_bob_online =
     \<lparr>users = [(''alice'', \<lparr>socket = 0, lastActivity = 0, disconnecting = False\<rparr>),
               (''bob'', \<lparr>socket = 1, lastActivity = 0, disconnecting = False\<rparr>)],
      destroyed = {},
      trace = [UsersSet ''alice'', SocketWrite 0 (''OK'' @ [CHR 0x0A]),
               UsersSet ''bob'', SocketWrite 1 (''OK'' @ [CHR 0x0A])]\<rparr>"
  by (simp add: alice_bob_online_def alice_online_eq run_defs string_defs)

text \<open>
  C5 when Alice writes to Bob.
\<close>

theorem dm_outcomes_witness:
  "wf alice_bob_online \<and> getUsernameBySocket alice_bob_online 0 = Some ''alice''
   \<and> 0 \<notin> destroyed alice_bob_online \<and> command_of ''DM bob hello  there'' = ''DM''
   \<and> trace (handleCommand alice_bob_online 9 0 ''DM bob hello  there'') =
       trace alice_bob_online @
       [SocketWrite 1 (''DM alice hello  there'' @ [CHR 0x0A]),
        SocketWrite 0 (''DM-SENT bob'' @ [CHR 0x0A])]"
proof -
  have h1: "wf alice_bob_online"
    by (simp add: alice_bob_online_eq wf_def)
  have h2: "getUsernameBySocket alice_bob_online 0 = Some ''alice''"
    by (simp add: alice_bob_online_eq getUsernameBySocket_def)
  have h3: "0 \<notin> destroyed alice_bob_online"
    by (simp add: alice_bob_online_eq)
  have h4: "command_of ''DM bob hello  there'' = ''DM''"
    by (simp add: string_defs)
  have parts: "parts_of ''DM bob hello  there'' = [''DM'', ''bob'', ''hello'', [], ''there'']"
    by (simp add: string_defs)
  have users: "users alice_bob_online =
      [(''alice'', \<lparr>socket = 0, lastActivity = 0, disconnecting = False\<rparr>),
       (''bob'', \<lparr>socket = 1, lastActivity = 0, disconnecting = False\<rparr>)]"
    by (simp add: alice_bob_online_eq)
  have none_destroyed: "destroyed alice_bob_online = {}"
    by (simp add: alice_bob_online_eq)
  have "trace (updateActivity alice_bob_online 9 0) = trace alice_bob_online"
    by simp
  then show ?thesis
    using h1 h2 h3 h4 dm_outcomes [OF h1 h2 h3 h4, of 9]
    by (simp add: parts users none_destroyed map_get_def trim_def is_ws_def)
qed

section \<open>Teardown and the name it frees\<close>

lemma login_succeeds:
  assumes "command_of data = ''LOGIN''" and "getUsernameBySocket s t = None"
    and "t \<notin> destroyed s" and "login_name data \<noteq> []"
    and "\<not> map_has (users s) (login_name data)"
  shows "handleCommand s now t data =
     s\<lparr>users := users s @
          [(login_name data, \<lparr>socket = t, lastActivity = now, disconnecting = False\<rparr>)],
       trace := trace s @ [UsersSet (login_name data), SocketWrite t (''OK'' @ [CHR 0x0A])]\<rparr>"
proof -
  from assms(1) have "trim data \<noteq> []" by (simp add: command_nonblank)
  with assms show ?thesis
    unfolding login_name_def
    by (simp add: handleCommand_login_new Let_def sendToSocket_eq
        lines_to_def users_set_def map_set_absent)
qed

lemma sent_while_key_writes:
  "n \<notin> K \<Longrightarrow> \<not> sent_while_key n K (lines_to D m ts @ evs) \<longleftrightarrow> \<not> sent_while_key n K evs"
  by (induction ts) (simp_all add: lines_to_def)

lemma new_events_append: "trace s' = trace s @ evs \<Longrightarrow> new_events s s' = evs"
  by (simp add: new_events_def)

lemma map_has_delete [simp]: "\<not> map_has (map_delete m k) k"
  by (auto simp: map_has_def map_delete_def)

text \<open>
  C3. Teardown of a socket that has a session. The first thing that happens is the removal
  of the name from the registry; the lines \<^verbatim>\<open>INFO name disconnected\<close> to the remaining
  sockets and the destruction of the socket come after it, so no line is written at a
  moment when the name is a key of the registry. When teardown is over the name is no key,
  and a LOGIN with that name from a socket that is not destroyed and has no session is
  accepted: the name is registered for that socket, which is sent \<^verbatim>\<open>OK\<close>.
\<close>

theorem teardown_frees_name:
  assumes "wf s" and "getUsernameBySocket s sock = Some name"
  shows "trace (handleDisconnect s sock) =
           trace s @ UsersDelete name #
             lines_to (destroyed s) (''INFO '' @ name @ '' disconnected'')
               (sockets_of (map_delete (users s) name)) @
             (if sock \<in> destroyed s then [] else [SocketDestroy sock])
       \<and> \<not> sent_while_key name (set (map fst (users s))) (new_events s (handleDisconnect s sock))
       \<and> \<not> map_has (users (handleDisconnect s sock)) name
       \<and> (\<forall>now t data.
             command_of data = ''LOGIN'' \<and> login_name data = name
             \<and> getUsernameBySocket (handleDisconnect s sock) t = None
             \<and> t \<notin> destroyed (handleDisconnect s sock) \<longrightarrow>
             handleCommand (handleDisconnect s sock) now t data =
               (handleDisconnect s sock)
                 \<lparr>users := users (handleDisconnect s sock) @
                    [(name, \<lparr>socket = t, lastActivity = now, disconnecting = False\<rparr>)],
                  trace := trace (handleDisconnect s sock) @
                    [UsersSet name, SocketWrite t (''OK'' @ [CHR 0x0A])]\<rparr>)"
proof -
  let ?s' = "handleDisconnect s sock"
  note eq = handleDisconnect_session [OF assms]
  from assms have ne: "name \<noteq> []" by (rule session_name)
  have tr: "trace ?s' =
           trace s @ UsersDelete name #
             lines_to (destroyed s) (''INFO '' @ name @ '' disconnected'')
               (sockets_of (map_delete (users s) name)) @
             (if sock \<in> destroyed s then [] else [SocketDestroy sock])"
    by (simp add: eq)
  have quiet: "\<not> sent_while_key name (set (map fst (users s))) (new_events s ?s')"
    unfolding new_events_append [OF tr]
    by (simp add: sent_while_key_writes del: set_map)
  have gone: "\<not> map_has (users ?s') name"
    by (simp add: eq)
  have again: "handleCommand ?s' now t data =
      ?s'\<lparr>users := users ?s' @ [(name, \<lparr>socket = t, lastActivity = now, disconnecting = False\<rparr>)],
          trace := trace ?s' @ [UsersSet name, SocketWrite t (''OK'' @ [CHR 0x0A])]\<rparr>"
    if "command_of data = ''LOGIN''" "login_name data = name"
      "getUsernameBySocket ?s' t = None" "t \<notin> destroyed ?s'" for now t data
    using login_succeeds [of data ?s' t now] that ne gone by simp
  from tr quiet gone again show ?thesis by blast
qed

lemma wf_alice_bob_online: "wf alice_bob_online"
  by (simp add: alice_bob_online_eq wf_def)

lemma bob_session: "getUsernameBySocket alice_bob_online 1 = Some ''bob''"
  by (simp add: alice_bob_online_eq getUsernameBySocket_def)

lemma bob_gone_eq:
  "handleDisconnect alice_bob_online 1 =
     \<lparr>users = [(''alice'', \<lparr>socket = 0, lastActivity = 0, disconnecting = False\<rparr>)],
      destroyed = {1},
      trace = trace alice_bob_online @
        [UsersDelete ''bob'', SocketWrite 0 (''INFO bob disconnected'' @ [CHR 0x0A]),
         SocketDestroy 1]\<rparr>"
  unfolding handleDisconnect_session [OF wf_alice_bob_online bob_session]
  by (simp add: alice_bob_online_eq map_delete_def sockets_of_def lines_to_def)

text \<open>
  C3 when Bob leaves and a new socket logs in under his name.
\<close>

theorem teardown_frees_name_witness:
  "wf alice_bob_online \<and> getUsernameBySocket alice_bob_online 1 = Some ''bob''
   \<and> \<not> sent_while_key ''bob'' {''alice'', ''bob''}
         [UsersDelete ''bob'', SocketWrite 0 (''INFO bob disconnected'' @ [CHR 0x0A]),
          SocketDestroy 1]
   \<and> command_of ''login bob'' = ''LOGIN'' \<and> login_name ''login bob'' = ''bob''
   \<and> getUsernameBySocket (handleDisconnect alice_bob_online 1) 2 = None
   \<and> 2 \<notin> destroyed (handleDisconnect alice_bob_online 1)
   \<and> users (handleCommand (handleDisconnect alice_bob_online 1) 50 2 ''login bob'') =
       [(''alice'', \<lparr>socket = 0, lastActivity = 0, disconnecting = False\<rparr>),
        (''bob'', \<lparr>socket = 2, lastActivity = 50, disconnecting = False\<rparr>)]"
proof -
  let ?s' = "handleDisconnect alice_bob_online 1"
  note T = teardown_frees_name [OF wf_alice_bob_online bob_session]
  have keys: "set (map fst (users alice_bob_online)) = {''alice'', ''bob''}"
    by (simp add: alice_bob_online_eq)
  have evs: "new_events alice_bob_online ?s' =
      [UsersDelete ''bob'', SocketWrite 0 (''INFO bob disconnected'' @ [CHR 0x0A]), SocketDestroy 1]"
    unfolding bob_gone_eq new_events_def by simp
  have h3: "command_of ''login bob'' = ''LOGIN''"
    by (simp add: string_defs)
  have h4: "login_name ''login bob'' = ''bob''"
    by (simp add: login_name_def string_defs)
  have h5: "getUsernameBySocket ?s' 2 = None"
    unfolding bob_gone_eq by (simp add: getUsernameBySocket_def)
  have h6: "2 \<notin> destroyed ?s'"
    unfolding bob_gone_eq by simp
  from T have quiet: "\<not> sent_while_key ''bob'' (set (map fst (users alice_bob_online)))
      (new_events alice_bob_online ?s')" by blast
  from T h3 h4 h5 h6 have "handleCommand ?s' 50 2 ''login bob'' =
      ?s'\<lparr>users := users ?s' @ [(''bob'', \<lparr>socket = 2, lastActivity = 50, disconnecting = False\<rparr>)],
          trace := trace ?s' @ [UsersSet ''bob'', SocketWrite 2 (''OK'' @ [CHR 0x0A])]\<rparr>"
    by blast
  then have "users (handleCommand ?s' 50 2 ''login bob'') =
       [(''alice'', \<lparr>socket = 0, lastActivity = 0, disconnecting = False\<rparr>),
        (''bob'', \<lparr>socket = 2, lastActivity = 50, disconnecting = False\<rparr>)]"
    unfolding bob_gone_eq by simp
  with quiet h3 h4 h5 h6 wf_alice_bob_online bob_session show ?thesis
    unfolding keys evs by blast
qed

section \<open>Teardown, repeated\<close>

lemma written_to_append: "written_to t (xs @ ys) = written_to t xs @ written_to t ys"
  by (induction t xs rule: written_to.induct) simp_all

lemma written_to_lines_to:
  "distinct ts \<Longrightarrow>
   written_to t (lines_to D m ts) = (if t \<in> set ts \<and> t \<notin> D then [m @ [CHR 0x0A]] else [])"
  by (induction ts) (auto simp: lines_to_def)

lemma count_destroy_lines_to: "count_list (lines_to D m ts) (SocketDestroy t) = 0"
  by (induction ts) (simp_all add: lines_to_def)

lemma count_list_append: "count_list (xs @ ys) x = count_list xs x + count_list ys x"
  by (induction xs) simp_all

lemma handleDisconnect_again:
  assumes "wf s" and "getUsernameBySocket s sock = Some name"
  shows "handleDisconnect (handleDisconnect s sock) sock = handleDisconnect s sock"
proof -
  let ?s' = "handleDisconnect s sock"
  note eq = handleDisconnect_session [OF assms]
  from assms(2) obtain d where d: "(name, d) \<in> set (users s)" "socket d = sock"
    unfolding getUsernameBySocket_def by (auto dest: find_socket_Some)
  from assms(1) have "distinct (sockets_of (users s))"
    by (simp add: wf_def sockets_of_def)
  with d have "sock \<notin> set (sockets_of (map_delete (users s) name))"
    using socket_gone by blast
  then have "getUsernameBySocket ?s' sock = None"
    by (simp add: getUsernameBySocket_def find_socket_None eq)
  then have "handleDisconnect ?s' sock = ensure_destroyed ?s' sock"
    by (rule handleDisconnect_no_session)
  also have "sock \<in> destroyed ?s'" by (simp add: eq)
  then have "ensure_destroyed ?s' sock = ?s'" by (simp add: ensure_destroyed_def)
  finally show ?thesis .
qed

text \<open>
  C2. Teardown of a socket that has a session, run any number of times. The first run
  writes \<^verbatim>\<open>INFO name disconnected\<close> once to every remaining socket that is not
  destroyed and to no other socket, and leaves the socket destroyed: it calls
  \<^verbatim>\<open>destroy\<close> once when the socket was not destroyed before, and not at all when it
  was. Every later run returns the state it is given.
\<close>

theorem teardown_idempotent:
  assumes "wf s" and "getUsernameBySocket s sock = Some name"
  shows "(\<forall>t. written_to t (new_events s (handleDisconnect s sock)) =
            (if t \<in> set (sockets_of (map_delete (users s) name)) \<and> t \<notin> destroyed s
             then [''INFO '' @ name @ '' disconnected'' @ [CHR 0x0A]] else []))
       \<and> count_list (new_events s (handleDisconnect s sock)) (SocketDestroy sock) =
            (if sock \<in> destroyed s then 0 else 1)
       \<and> sock \<in> destroyed (handleDisconnect s sock)
       \<and> (\<forall>n. ((\<lambda>s'. handleDisconnect s' sock) ^^ n) (handleDisconnect s sock) =
                 handleDisconnect s sock)"
proof -
  let ?s' = "handleDisconnect s sock"
  let ?rest = "sockets_of (map_delete (users s) name)"
  note eq = handleDisconnect_session [OF assms]
  have tr: "trace ?s' =
           trace s @ UsersDelete name #
             lines_to (destroyed s) (''INFO '' @ name @ '' disconnected'') ?rest @
             (if sock \<in> destroyed s then [] else [SocketDestroy sock])"
    by (simp add: eq)
  from assms(1) have "distinct (sockets_of (users s))"
    by (simp add: wf_def sockets_of_def)
  then have dist: "distinct ?rest" by (rule distinct_sockets_delete)
  have lines: "written_to t (new_events s ?s') =
            (if t \<in> set ?rest \<and> t \<notin> destroyed s
             then [''INFO '' @ name @ '' disconnected'' @ [CHR 0x0A]] else [])" for t
    unfolding new_events_append [OF tr]
    by (simp add: written_to_append written_to_lines_to [OF dist])
  have destroys: "count_list (new_events s ?s') (SocketDestroy sock) =
            (if sock \<in> destroyed s then 0 else 1)"
    unfolding new_events_append [OF tr]
    by (simp add: count_list_append count_destroy_lines_to)
  have closed: "sock \<in> destroyed ?s'" by (simp add: eq)
  have later: "((\<lambda>s'. handleDisconnect s' sock) ^^ n) ?s' = ?s'" for n
    by (induction n) (simp_all add: handleDisconnect_again [OF assms])
  from lines destroys closed later show ?thesis by blast
qed

lemma bob_lost_eq:
  "bob_lost =
     \<lparr>users = [(''alice'', \<lparr>socket = 0, lastActivity = 0, disconnecting = False\<rparr>),
               (''bob'', \<lparr>socket = 1, lastActivity = 0, disconnecting = False\<rparr>)],
      destroyed = {1},
      trace = [UsersSet ''alice'', SocketWrite 0 (''OK'' @ [CHR 0x0A]),
               UsersSet ''bob'', SocketWrite 1 (''OK'' @ [CHR 0x0A])]\<rparr>"
  by (simp add: bob_lost_def alice_bob_online_eq socket_lost_def)

text \<open>
  The wording of C2 in the specification asks for one destruction of the connection in
  every case. Here the transport has destroyed the socket of Bob before the handler runs:
  two runs of the handler delete his name and tell Alice, and \<^verbatim>\<open>destroy\<close> is not called.
\<close>

theorem teardown_twice_no_destroy:
  "getUsernameBySocket bob_lost 1 = Some ''bob''
   \<and> new_events bob_lost (handleDisconnect (handleDisconnect bob_lost 1) 1) =
       [UsersDelete ''bob'', SocketWrite 0 (''INFO bob disconnected'' @ [CHR 0x0A])]
   \<and> count_list (new_events bob_lost (handleDisconnect (handleDisconnect bob_lost 1) 1))
        (SocketDestroy 1) \<noteq> 1"
  unfolding bob_lost_eq
  by (simp add: new_events_def run_defs)

text \<open>
  C2 when Bob leaves with his socket still open.
\<close>

theorem teardown_idempotent_witness:
  "wf alice_bob_online \<and> getUsernameBySocket alice_bob_online 1 = Some ''bob''
   \<and> written_to 0 (new_events alice_bob_online (handleDisconnect alice_bob_online 1)) =
       [''INFO bob disconnected'' @ [CHR 0x0A]]
   \<and> written_to 1 (new_events alice_bob_online (handleDisconnect alice_bob_online 1)) = []
   \<and> count_list (new_events alice_bob_online (handleDisconnect alice_bob_online 1))
        (SocketDestroy 1) = 1
   \<and> handleDisconnect (handleDisconnect alice_bob_online 1) 1 = handleDisconnect alice_bob_online 1"
proof -
  note T = teardown_idempotent [OF wf_alice_bob_online bob_session]
  have rest: "sockets_of (map_delete (users alice_bob_online) ''bob'') = [0]"
    by (simp add: alice_bob_online_eq map_delete_def sockets_of_def)
  have live: "destroyed alice_bob_online = {}"
    by (simp add: alice_bob_online_eq)
  from T have "((\<lambda>s'. handleDisconnect s' 1) ^^ 1) (handleDisconnect alice_bob_online 1) =
      handleDisconnect alice_bob_online 1" by blast
  then have again: "handleDisconnect (handleDisconnect alice_bob_online 1) 1 =
      handleDisconnect alice_bob_online 1" by simp
  from T have "written_to 0 (new_events alice_bob_online (handleDisconnect alice_bob_online 1)) =
       [''INFO bob disconnected'' @ [CHR 0x0A]]"
    and "written_to 1 (new_events alice_bob_online (handleDisconnect alice_bob_online 1)) = []"
    and "count_list (new_events alice_bob_online (handleDisconnect alice_bob_online 1))
        (SocketDestroy 1) = 1"
    unfolding rest live by simp_all
  with again wf_alice_bob_online bob_session show ?thesis by blast
qed

section \<open>Broadcast\<close>

lemma session_socket:
  "getUsernameBySocket s sock = Some name \<Longrightarrow>
   sock \<in> set (sockets_of (users s)) \<and> name \<in> set (map fst (users s))"
  unfolding getUsernameBySocket_def sockets_of_def
  by (force dest: find_socket_Some)

text \<open>
  C6. A MSG command from a socket that is not destroyed and has a session. When the text,
  the tokens after the command word joined by spaces and trimmed, is not empty, every socket
  of the registry that is not destroyed, the one of the sender among them, is sent the one
  line \<^verbatim>\<open>MSG sender text\<close>; a socket of the registry that is destroyed and a socket
  outside the registry are sent nothing. When the text is empty the sender is sent
  \<^verbatim>\<open>ERR empty-message\<close> and nothing is sent to anyone else.
\<close>

theorem msg_broadcast:
  assumes "wf s" and "getUsernameBySocket s sock = Some sender" and "sock \<notin> destroyed s"
    and "command_of data = ''MSG''"
  shows "(msg_text data \<noteq> [] \<longrightarrow>
            (\<forall>t. written_to t (new_events s (handleCommand s now sock data)) =
                 (if t \<in> set (sockets_of (users s)) \<and> t \<notin> destroyed s
                  then [''MSG '' @ sender @ '' '' @ msg_text data @ [CHR 0x0A]] else []))
            \<and> written_to sock (new_events s (handleCommand s now sock data)) =
                 [''MSG '' @ sender @ '' '' @ msg_text data @ [CHR 0x0A]])
       \<and> (msg_text data = [] \<longrightarrow>
            new_events s (handleCommand s now sock data) =
              [SocketWrite sock (''ERR empty-message'' @ [CHR 0x0A])])"
proof -
  let ?s' = "handleCommand s now sock data"
  from assms(1,2) have ne: "sender \<noteq> []" by (rule session_name)
  from assms(4) have nb: "trim data \<noteq> []" by (simp add: command_nonblank)
  note msg = handleCommand_MSG [OF nb assms(4) assms(2) ne, of now]
  from assms(1) have dist: "distinct (sockets_of (users s))"
    by (simp add: wf_def sockets_of_def)
  from assms(2) have own: "sock \<in> set (sockets_of (users s))"
    by (simp add: session_socket)
  have empty: "new_events s ?s' = [SocketWrite sock (''ERR empty-message'' @ [CHR 0x0A])]"
    if "msg_text data = []"
  proof -
    from that assms(3) have "trace ?s' = trace s @ [SocketWrite sock (''ERR empty-message'' @ [CHR 0x0A])]"
      unfolding msg_text_def by (simp add: msg sendToSocket_trace lines_to_def)
    then show ?thesis by (rule new_events_append)
  qed
  have sent: "written_to t (new_events s ?s') =
                 (if t \<in> set (sockets_of (users s)) \<and> t \<notin> destroyed s
                  then [''MSG '' @ sender @ '' '' @ msg_text data @ [CHR 0x0A]] else [])"
    if "msg_text data \<noteq> []" for t
  proof -
    from that have "trace ?s' = trace s @
        lines_to (destroyed s) (''MSG '' @ sender @ '' '' @ msg_text data) (sockets_of (users s))"
      unfolding msg_text_def by (simp add: msg broadcastToAll_eq)
    then have "new_events s ?s' =
        lines_to (destroyed s) (''MSG '' @ sender @ '' '' @ msg_text data) (sockets_of (users s))"
      by (rule new_events_append)
    then show ?thesis by (simp add: written_to_lines_to [OF dist])
  qed
  from empty sent own assms(3) show ?thesis by simp
qed

text \<open>
  The wording of C6 in the specification has every connection of the registry receive the
  line. With Bob in the registry on a destroyed socket, the line of Alice is written to her
  own socket and to no other.
\<close>

theorem msg_skips_destroyed:
  "getUsernameBySocket bob_lost 0 = Some ''alice'' \<and> getUsernameBySocket bob_lost 1 = Some ''bob''
   \<and> new_events bob_lost (handleCommand bob_lost 5 0 ''MSG hi'') =
       [SocketWrite 0 (''MSG alice hi'' @ [CHR 0x0A])]
   \<and> written_to 1 (new_events bob_lost (handleCommand bob_lost 5 0 ''MSG hi'')) \<noteq>
       [''MSG alice hi'' @ [CHR 0x0A]]"
  unfolding bob_lost_eq
  by (simp add: new_events_def run_defs string_defs)

text \<open>
  C6 when Bob speaks and both sockets are open.
\<close>

theorem msg_broadcast_witness:
  "wf alice_bob_online \<and> getUsernameBySocket alice_bob_online 1 = Some ''bob''
   \<and> 1 \<notin> destroyed alice_bob_online \<and> command_of ''msg  hi all '' = ''MSG''
   \<and> msg_text ''msg  hi all '' \<noteq> []
   \<and> written_to 0 (new_events alice_bob_online (handleCommand alice_bob_online 8 1 ''msg  hi all ''))
       = [''MSG bob hi all'' @ [CHR 0x0A]]
   \<and> written_to 1 (new_events alice_bob_online (handleCommand alice_bob_online 8 1 ''msg  hi all ''))
       = [''MSG bob hi all'' @ [CHR 0x0A]]"
proof -
  have h3: "1 \<notin> destroyed alice_bob_online"
    by (simp add: alice_bob_online_eq)
  have h4: "command_of ''msg  hi all '' = ''MSG''"
    by (simp add: string_defs)
  have body: "msg_text ''msg  hi all '' = ''hi all''"
    by (simp add: msg_text_def string_defs)
  have socks: "sockets_of (users alice_bob_online) = [0, 1]"
    by (simp add: alice_bob_online_eq sockets_of_def)
  have live: "destroyed alice_bob_online = {}"
    by (simp add: alice_bob_online_eq)
  note T = msg_broadcast [OF wf_alice_bob_online bob_session h3 h4, of 8]
  from T body have all: "\<forall>t. written_to t
        (new_events alice_bob_online (handleCommand alice_bob_online 8 1 ''msg  hi all '')) =
      (if t \<in> set (sockets_of (users alice_bob_online)) \<and> t \<notin> destroyed alice_bob_online
       then [''MSG '' @ ''bob'' @ '' '' @ ''hi all'' @ [CHR 0x0A]] else [])"
    by simp
  from all [THEN spec, of 0] all [THEN spec, of 1]
  show ?thesis
    using wf_alice_bob_online bob_session h3 h4 body
    unfolding socks live by simp
qed

section \<open>The list of users\<close>

lemma who_lines:
  "t \<notin> D \<Longrightarrow>
   concat (map (\<lambda>e. lines_to D (f e) [t]) es) =
     map (\<lambda>e. SocketWrite t (f e @ [CHR 0x0A])) es"
  by (induction es) (simp_all add: lines_to_def)

text \<open>
  C7. A WHO command from a socket that is not destroyed. When the registry is empty the
  socket has no session, and it is sent the one line \<^verbatim>\<open>ERR not-logged-in\<close>. When the
  socket has a session it is sent one line \<^verbatim>\<open>USER name\<close> for every key of the
  registry, in the order of the registry, and nothing else; the keys are distinct and the
  name of the requester is one of them.
\<close>

theorem who_reply:
  assumes "wf s" and "sock \<notin> destroyed s" and "command_of data = ''WHO''"
  shows "(users s = [] \<longrightarrow>
            new_events s (handleCommand s now sock data) =
              [SocketWrite sock (''ERR not-logged-in'' @ [CHR 0x0A])])
       \<and> (\<forall>name. getUsernameBySocket s sock = Some name \<longrightarrow>
            new_events s (handleCommand s now sock data) =
              map (\<lambda>u. SocketWrite sock (''USER '' @ u @ [CHR 0x0A])) (map fst (users s))
            \<and> distinct (map fst (users s)) \<and> name \<in> set (map fst (users s)))"
proof (intro conjI impI allI)
  from assms(3) have nb: "trim data \<noteq> []" by (simp add: command_nonblank)
  {
    assume "users s = []"
    then have "getUsernameBySocket s sock = None"
      by (simp add: getUsernameBySocket_def)
    with nb assms(2,3) have "trace (handleCommand s now sock data) =
        trace s @ [SocketWrite sock (''ERR not-logged-in'' @ [CHR 0x0A])]"
      by (simp add: handleCommand_not_logged_in sendToSocket_trace lines_to_def)
    then show "new_events s (handleCommand s now sock data) =
        [SocketWrite sock (''ERR not-logged-in'' @ [CHR 0x0A])]"
      by (rule new_events_append)
  }
  fix name
  assume u: "getUsernameBySocket s sock = Some name"
  with assms(1) have ne: "name \<noteq> []" by (rule session_name)
  let ?s1 = "updateActivity s now sock"
  from u have mem: "name \<in> set (map fst (users s))" by (rule session_socket [THEN conjunct2])
  then have "users ?s1 \<noteq> []"
    using updateActivity_keys [of s now sock] by (metis list.set_cases list.simps(8) neq_Nil_conv)
  with assms(2) have "trace (handleCommand s now sock data) =
      trace s @ map (\<lambda>u. SocketWrite sock (''USER '' @ u @ [CHR 0x0A])) (map fst (users ?s1))"
    by (simp add: handleCommand_WHO [OF nb assms(3) u ne] who_loop who_lines Let_def comp_def
        del: updateActivity_keys)
  then have "trace (handleCommand s now sock data) =
      trace s @ map (\<lambda>u. SocketWrite sock (''USER '' @ u @ [CHR 0x0A])) (map fst (users s))"
    by simp
  then show "new_events s (handleCommand s now sock data) =
      map (\<lambda>u. SocketWrite sock (''USER '' @ u @ [CHR 0x0A])) (map fst (users s))"
    by (rule new_events_append)
  from assms(1) show "distinct (map fst (users s))" by (simp add: wf_def)
  from mem show "name \<in> set (map fst (users s))" .
qed

text \<open>
  The wording of C7 in the specification has WHO on an empty registry answered with
  \<^verbatim>\<open>INFO no-users-online\<close>. On the empty registry the answer is
  \<^verbatim>\<open>ERR not-logged-in\<close>.
\<close>

theorem who_on_empty_registry:
  "users init = [] \<and> command_of ''WHO'' = ''WHO''
   \<and> new_events init (handleCommand init 0 0 ''WHO'') =
       [SocketWrite 0 (''ERR not-logged-in'' @ [CHR 0x0A])]
   \<and> new_events init (handleCommand init 0 0 ''WHO'') \<noteq>
       [SocketWrite 0 (''INFO no-users-online'' @ [CHR 0x0A])]"
  by (simp add: new_events_def run_defs string_defs)

text \<open>
  C7 when Bob asks who is there.
\<close>

theorem who_reply_witness:
  "wf alice_bob_online \<and> 1 \<notin> destroyed alice_bob_online \<and> command_of ''who'' = ''WHO''
   \<and> getUsernameBySocket alice_bob_online 1 = Some ''bob''
   \<and> new_events alice_bob_online (handleCommand alice_bob_online 8 1 ''who'') =
       [SocketWrite 1 (''USER alice'' @ [CHR 0x0A]), SocketWrite 1 (''USER bob'' @ [CHR 0x0A])]"
proof -
  have h2: "1 \<notin> destroyed alice_bob_online"
    by (simp add: alice_bob_online_eq)
  have h3: "command_of ''who'' = ''WHO''"
    by (simp add: string_defs)
  have keys: "map fst (users alice_bob_online) = [''alice'', ''bob'']"
    by (simp add: alice_bob_online_eq)
  from who_reply [OF wf_alice_bob_online h2 h3, of 8] bob_session
  have "new_events alice_bob_online (handleCommand alice_bob_online 8 1 ''who'') =
      map (\<lambda>u. SocketWrite 1 (''USER '' @ u @ [CHR 0x0A])) (map fst (users alice_bob_online))"
    by blast
  then show ?thesis
    using wf_alice_bob_online h2 h3 bob_session unfolding keys by simp
qed

section \<open>LOGIN with a name that is taken\<close>

lemma keys_after_append: "keys_after K (xs @ ys) = keys_after (keys_after K xs) ys"
  by (induction K xs rule: keys_after.induct) simp_all

lemma sets_fresh_append:
  "sets_fresh K (xs @ ys) \<longleftrightarrow> sets_fresh K xs \<and> sets_fresh (keys_after K xs) ys"
  by (induction K xs rule: sets_fresh.induct) simp_all

lemma keys_after_lines [simp]: "keys_after K (lines_to D m ts) = K"
  by (induction ts) (simp_all add: lines_to_def)

lemma sets_fresh_lines [simp]: "sets_fresh K (lines_to D m ts)"
  by (induction ts) (simp_all add: lines_to_def)

lemma step_ok_refl: "step_ok s s"
  by (simp add: step_ok_def)

lemma step_ok_trans: "step_ok s s1 \<Longrightarrow> step_ok s1 s2 \<Longrightarrow> step_ok s s2"
proof -
  assume "step_ok s s1" and "step_ok s1 s2"
  then obtain a b where a: "trace s1 = trace s @ a" "keys_after (keys_of s) a = keys_of s1"
      "sets_fresh (keys_of s) a"
    and b: "trace s2 = trace s1 @ b" "keys_after (keys_of s1) b = keys_of s2"
      "sets_fresh (keys_of s1) b"
    by (auto simp: step_ok_def)
  then have "trace s2 = trace s @ (a @ b)" "keys_after (keys_of s) (a @ b) = keys_of s2"
    "sets_fresh (keys_of s) (a @ b)"
    by (simp_all add: keys_after_append sets_fresh_append)
  then show ?thesis unfolding step_ok_def by blast
qed

lemma step_ok_lines:
  "users s' = users s \<Longrightarrow> trace s' = trace s @ lines_to D m ts \<Longrightarrow> step_ok s s'"
  unfolding step_ok_def keys_of_def by (intro exI [of _ "lines_to D m ts"]) simp

lemma step_ok_send: "step_ok s (sendToSocket s t m)"
  by (rule step_ok_lines [of _ _ "destroyed s" m "[t]"]) (simp_all add: sendToSocket_trace)

lemma step_ok_touch: "step_ok s (updateActivity s now sock)"
  unfolding step_ok_def keys_of_def by (intro exI [of _ "[]"]) simp

lemma step_ok_broadcastToAll: "step_ok s (broadcastToAll s m)"
  by (rule step_ok_lines [of _ _ "destroyed s" m "sockets_of (users s)"])
     (simp_all add: broadcastToAll_eq)

lemma step_ok_broadcast: "step_ok s (broadcast s m None)"
  by (rule step_ok_lines [of _ _ "destroyed s" m "sockets_of (users s)"])
     (simp_all add: broadcast_None_eq)

lemma step_ok_who: "step_ok s (foldl (\<lambda>s' e. sendToSocket s' t (f e)) s es)"
proof (induction es arbitrary: s)
  case Nil
  show ?case by (simp add: step_ok_refl)
next
  case (Cons e es)
  have "step_ok s (sendToSocket s t (f e))" by (rule step_ok_send)
  moreover have "step_ok (sendToSocket s t (f e))
      (foldl (\<lambda>s' e. sendToSocket s' t (f e)) (sendToSocket s t (f e)) es)"
    by (rule Cons.IH)
  ultimately show ?case using step_ok_trans by simp
qed

lemma step_ok_ensure_destroyed: "step_ok s (ensure_destroyed s sock)"
  unfolding step_ok_def keys_of_def
  by (intro exI [of _ "if sock \<in> destroyed s then [] else [SocketDestroy sock]"])
     (simp add: ensure_destroyed_eq)

lemma step_ok_set:
  "\<not> map_has (users s) n \<Longrightarrow> step_ok s (users_set s n d)"
  unfolding step_ok_def keys_of_def
  by (intro exI [of _ "[UsersSet n]"]) (simp add: users_set_def map_set_absent map_has_def)

lemma keys_delete: "set (map fst (map_delete m k)) = set (map fst m) - {k}"
  by (auto simp: map_delete_def)

lemma step_ok_delete: "step_ok s (users_delete s n)"
  unfolding step_ok_def keys_of_def
  by (intro exI [of _ "[UsersDelete n]"]) (simp add: users_delete_def keys_delete del: set_map)

lemma keys_marked:
  "map fst (map (\<lambda>(k, d). if k = n then (k, f d) else (k, d)) m) = map fst m"
  by (induction m) auto

lemma keys_of_mark: "keys_of (mark_disconnecting s n) = keys_of s"
proof -
  have "users (mark_disconnecting s n) =
      map (\<lambda>(k, d). if k = n then (k, d\<lparr>disconnecting := True\<rparr>) else (k, d)) (users s)"
    by (simp add: mark_disconnecting_def)
  then show ?thesis unfolding keys_of_def by (simp only: keys_marked)
qed

lemma step_ok_mark: "step_ok s (mark_disconnecting s n)"
  unfolding step_ok_def
  by (intro exI [of _ "[]"]) (simp add: keys_of_mark, simp add: mark_disconnecting_def)

lemma step_ok_handleDisconnect: "step_ok s (handleDisconnect s sock)"
proof -
  have a: "step_ok s (ensure_destroyed (broadcast (users_delete s' n) m None) sock)"
    if "step_ok s s'" for s' n m
    using that step_ok_delete [of s' n] step_ok_broadcast [of "users_delete s' n" m]
      step_ok_ensure_destroyed [of "broadcast (users_delete s' n) m None" sock]
    by (blast intro: step_ok_trans)
  show ?thesis
    unfolding handleDisconnect_def Let_def
    by (auto split: option.splits
        intro: step_ok_refl step_ok_ensure_destroyed a step_ok_mark)
qed

lemma step_ok_send': "step_ok s s1 \<Longrightarrow> step_ok s (sendToSocket s1 t m)"
  using step_ok_send step_ok_trans by blast

lemma step_ok_broadcastToAll': "step_ok s s1 \<Longrightarrow> step_ok s (broadcastToAll s1 m)"
  using step_ok_broadcastToAll step_ok_trans by blast

lemma step_ok_who':
  "step_ok s s1 \<Longrightarrow> step_ok s (foldl (\<lambda>s' e. sendToSocket s' t (f e)) s1 es)"
  using step_ok_who step_ok_trans by blast

lemma step_ok_set':
  "step_ok s s1 \<Longrightarrow> \<not> map_has (users s1) n \<Longrightarrow> step_ok s (users_set s1 n d)"
  using step_ok_set step_ok_trans by blast

lemma step_ok_handleCommand:
  assumes "wf s"
  shows "step_ok s (handleCommand s now sock data)"
proof (cases "trim data = []")
  case True
  then show ?thesis by (simp add: handleCommand_blank step_ok_refl)
next
  case False
  let ?s1 = "updateActivity s now sock"
  have s1: "step_ok s ?s1" by (rule step_ok_touch)
  show ?thesis
  proof (cases "getUsernameBySocket s sock")
    case None
    show ?thesis
    proof (cases "command_of data = ''LOGIN''")
      case True
      show ?thesis
        unfolding handleCommand_login_new [OF False True None] Let_def
        by (auto intro!: step_ok_send' step_ok_set' step_ok_refl)
    next
      case no_login: False
      show ?thesis
        unfolding handleCommand_not_logged_in [OF False no_login None]
        by (rule step_ok_send)
    qed
  next
    case (Some name)
    with assms have ne: "name \<noteq> []" by (rule session_name)
    consider "command_of data = ''LOGIN''" | "command_of data = ''MSG''"
      | "command_of data = ''WHO''" | "command_of data = ''DM''"
      | "command_of data \<notin> {''LOGIN'', ''MSG'', ''WHO'', ''DM''}" by auto
    then show ?thesis
    proof cases
      case 1
      show ?thesis
        unfolding handleCommand_login_again [OF False 1 Some ne]
        using s1 by (rule step_ok_send')
    next
      case 2
      show ?thesis
        unfolding handleCommand_MSG [OF False 2 Some ne] Let_def
        using s1 by (auto intro!: step_ok_send' step_ok_broadcastToAll')
    next
      case 3
      show ?thesis
        unfolding handleCommand_WHO [OF False 3 Some ne] Let_def
        using s1 by (auto intro!: step_ok_send' step_ok_who')
    next
      case 4
      show ?thesis
        unfolding handleCommand_DM [OF False 4 Some ne] Let_def
        using s1 by (auto split: option.splits simp del: updateActivity_map_has
            intro!: step_ok_send')
    next
      case 5
      show ?thesis
        unfolding handleCommand_other [OF False 5 Some ne]
        using s1 by (rule step_ok_send')
    qed
  qed
qed

lemma step_ok_sweep:
  "step_ok s (foldl (\<lambda>s' e. handleDisconnect (sendToSocket s' (snd e) m) (snd e)) s es)"
proof (induction es arbitrary: s)
  case Nil
  show ?case by (simp add: step_ok_refl)
next
  case (Cons e es)
  let ?s1 = "handleDisconnect (sendToSocket s (snd e) m) (snd e)"
  have "step_ok s ?s1"
    using step_ok_send [of s "snd e" m] step_ok_handleDisconnect step_ok_trans by blast
  moreover have "step_ok ?s1
      (foldl (\<lambda>s' e. handleDisconnect (sendToSocket s' (snd e) m) (snd e)) ?s1 es)"
    by (rule Cons.IH)
  ultimately show ?case using step_ok_trans by simp
qed

lemma step_ok_checkIdleUsers: "step_ok s (checkIdleUsers s now)"
  by (simp add: checkIdleUsers_def step_ok_sweep)

lemma destroy_loop_quiet:
  "\<exists>evs. trace (foldl (\<lambda>s' e. socket_destroy s' (socket (snd e))) s es) = trace s @ evs
     \<and> (\<forall>K. keys_after K evs = K \<and> sets_fresh K evs)"
proof (induction es arbitrary: s)
  case Nil
  show ?case by simp
next
  case (Cons e es)
  let ?s1 = "socket_destroy s (socket (snd e))"
  from Cons.IH [of ?s1] obtain evs where
    "trace (foldl (\<lambda>s' e. socket_destroy s' (socket (snd e))) ?s1 es) = trace ?s1 @ evs"
    "\<forall>K. keys_after K evs = K \<and> sets_fresh K evs" by blast
  then have "trace (foldl (\<lambda>s' e. socket_destroy s' (socket (snd e))) s (e # es)) =
      trace s @ (SocketDestroy (socket (snd e)) # evs)"
    "\<forall>K. keys_after K (SocketDestroy (socket (snd e)) # evs) = K
        \<and> sets_fresh K (SocketDestroy (socket (snd e)) # evs)"
    by (simp_all add: socket_destroy_def)
  then show ?case by blast
qed

lemma step_ok_shutdown: "step_ok s (shutdown s)"
proof -
  let ?s1 = "broadcast s ''INFO server-shutting-down'' None"
  let ?s2 = "foldl (\<lambda>s' e. socket_destroy s' (socket (snd e))) ?s1 (users ?s1)"
  obtain evs where evs: "trace ?s2 = trace ?s1 @ evs"
    "\<forall>K. keys_after K evs = K \<and> sets_fresh K evs"
    using destroy_loop_quiet by blast
  have "trace (shutdown s) = trace ?s1 @ (evs @ [UsersClear])"
    by (simp add: shutdown_def Let_def users_clear_def evs(1))
  moreover have "keys_after (keys_of ?s1) (evs @ [UsersClear]) = keys_of (shutdown s)"
    by (simp add: keys_after_append evs(2) keys_of_def shutdown_def Let_def users_clear_def)
  moreover have "sets_fresh (keys_of ?s1) (evs @ [UsersClear])"
    by (simp add: sets_fresh_append evs(2))
  ultimately have "step_ok ?s1 (shutdown s)" unfolding step_ok_def by blast
  with step_ok_broadcast [of s "''INFO server-shutting-down''"] show ?thesis
    by (rule step_ok_trans)
qed

lemma step_ok_socket_lost: "step_ok s (socket_lost s sock)"
  unfolding step_ok_def keys_of_def by (intro exI [of _ "[]"]) (simp add: socket_lost_def)

lemma reachable_step_ok: "reachable s \<Longrightarrow> step_ok init s"
proof (induction rule: reachable.induct)
  case start
  show ?case by (rule step_ok_refl)
next
  case (command s now sock data)
  then show ?case using step_ok_handleCommand reachable_wf step_ok_trans by blast
next
  case (disconnect s sock)
  then show ?case using step_ok_handleDisconnect step_ok_trans by blast
next
  case (sweep s now)
  then show ?case using step_ok_checkIdleUsers step_ok_trans by blast
next
  case (lost s sock)
  then show ?case using step_ok_socket_lost step_ok_trans by blast
next
  case (interrupt s)
  then show ?case using step_ok_shutdown step_ok_trans by blast
qed

lemma reachable_sets_fresh:
  "reachable s \<Longrightarrow> sets_fresh {} (trace s) \<and> keys_after {} (trace s) = set (map fst (users s))"
  using reachable_step_ok [of s] by (auto simp: step_ok_def init_def keys_of_def)

lemma reachable_alice_online: "reachable alice_online"
  unfolding alice_online_def by (intro reachable.command reachable.start)

text \<open>
  C1. In every reachable state the keys of the registry are distinct: one session for a
  name. In the run that led to the state, every \<^verbatim>\<open>users.set\<close>, which only an accepted
  LOGIN makes, added a name that was no key at that moment. While a name is a key, no LOGIN with that name, whatever the spelling of the line
  and the socket it arrives on, registers anything: the keys and their sockets stay as they
  are, and the socket, when it is not destroyed, is sent \<^verbatim>\<open>ERR username-taken\<close> if it
  has no session and \<^verbatim>\<open>ERR already-logged-in\<close> if it has one.
\<close>

theorem login_once:
  assumes "reachable s"
  shows "distinct (map fst (users s))
       \<and> sets_fresh {} (trace s)
       \<and> (\<forall>now sock data.
             sock \<notin> destroyed s \<and> command_of data = ''LOGIN''
             \<and> map_has (users s) (login_name data) \<longrightarrow>
             map fst (users (handleCommand s now sock data)) = map fst (users s)
             \<and> sockets_of (users (handleCommand s now sock data)) = sockets_of (users s)
             \<and> (getUsernameBySocket s sock = None \<longrightarrow>
                  new_events s (handleCommand s now sock data) =
                    [SocketWrite sock (''ERR username-taken'' @ [CHR 0x0A])])
             \<and> (getUsernameBySocket s sock \<noteq> None \<longrightarrow>
                  new_events s (handleCommand s now sock data) =
                    [SocketWrite sock (''ERR already-logged-in'' @ [CHR 0x0A])]))"
proof -
  from assms have w: "wf s" by (rule reachable_wf)
  then have keys: "distinct (map fst (users s))" by (simp add: wf_def)
  have step: "map fst (users (handleCommand s now sock data)) = map fst (users s)
             \<and> sockets_of (users (handleCommand s now sock data)) = sockets_of (users s)
             \<and> (getUsernameBySocket s sock = None \<longrightarrow>
                  new_events s (handleCommand s now sock data) =
                    [SocketWrite sock (''ERR username-taken'' @ [CHR 0x0A])])
             \<and> (getUsernameBySocket s sock \<noteq> None \<longrightarrow>
                  new_events s (handleCommand s now sock data) =
                    [SocketWrite sock (''ERR already-logged-in'' @ [CHR 0x0A])])"
    if live: "sock \<notin> destroyed s" and cmd: "command_of data = ''LOGIN''"
      and taken: "map_has (users s) (login_name data)" for now sock data
  proof (cases "getUsernameBySocket s sock")
    case None
    from cmd have nb: "trim data \<noteq> []" by (simp add: command_nonblank)
    from w taken have "login_name data \<noteq> []"
      by (auto simp: wf_def map_has_def)
    with taken have "handleCommand s now sock data = sendToSocket s sock ''ERR username-taken''"
      unfolding login_name_def
      by (simp add: handleCommand_login_new [OF nb cmd None] Let_def)
    with live have "handleCommand s now sock data =
        s\<lparr>trace := trace s @ [SocketWrite sock (''ERR username-taken'' @ [CHR 0x0A])]\<rparr>"
      by (simp add: sendToSocket_eq lines_to_def)
    with None show ?thesis by (simp add: new_events_def)
  next
    case (Some name)
    from cmd have nb: "trim data \<noteq> []" by (simp add: command_nonblank)
    from w Some have ne: "name \<noteq> []" by (rule session_name)
    from live have "handleCommand s now sock data =
        (updateActivity s now sock)
          \<lparr>trace := trace s @ [SocketWrite sock (''ERR already-logged-in'' @ [CHR 0x0A])]\<rparr>"
      by (simp add: handleCommand_login_again [OF nb cmd Some ne] sendToSocket_eq lines_to_def)
    with Some show ?thesis by (simp add: new_events_def)
  qed
  from assms have "sets_fresh {} (trace s)" by (simp add: reachable_sets_fresh)
  with keys step show ?thesis by blast
qed

text \<open>
  The wording of C1 in the specification has every repeated LOGIN with a name that is taken
  answered with \<^verbatim>\<open>ERR username-taken\<close>. Alice repeats her LOGIN on her own socket
  and is answered \<^verbatim>\<open>ERR already-logged-in\<close>.
\<close>

theorem login_repeated_on_own_socket:
  "getUsernameBySocket alice_online 0 = Some ''alice'' \<and> command_of ''LOGIN alice'' = ''LOGIN''
   \<and> login_name ''LOGIN alice'' = ''alice''
   \<and> map_has (users alice_online) ''alice''
   \<and> new_events alice_online (handleCommand alice_online 1 0 ''LOGIN alice'') =
       [SocketWrite 0 (''ERR already-logged-in'' @ [CHR 0x0A])]
   \<and> new_events alice_online (handleCommand alice_online 1 0 ''LOGIN alice'') \<noteq>
       [SocketWrite 0 (''ERR username-taken'' @ [CHR 0x0A])]"
  unfolding alice_online_eq
  by (simp add: new_events_def login_name_def run_defs string_defs)

text \<open>
  C1 when a second socket asks for the name of Alice.
\<close>

theorem login_once_witness:
  "reachable alice_online \<and> 4 \<notin> destroyed alice_online \<and> command_of ''login  alice'' = ''LOGIN''
   \<and> map_has (users alice_online) (login_name ''login  alice'')
   \<and> getUsernameBySocket alice_online 4 = None
   \<and> map fst (users (handleCommand alice_online 3 4 ''login  alice'')) = [''alice'']
   \<and> new_events alice_online (handleCommand alice_online 3 4 ''login  alice'') =
       [SocketWrite 4 (''ERR username-taken'' @ [CHR 0x0A])]"
proof -
  have h2: "4 \<notin> destroyed alice_online"
    by (simp add: alice_online_eq)
  have h3: "command_of ''login  alice'' = ''LOGIN''"
    by (simp add: string_defs)
  have h4: "map_has (users alice_online) (login_name ''login  alice'')"
    by (simp add: alice_online_eq login_name_def string_defs map_has_def)
  have h5: "getUsernameBySocket alice_online 4 = None"
    by (simp add: alice_online_eq getUsernameBySocket_def)
  have keys: "map fst (users alice_online) = [''alice'']"
    by (simp add: alice_online_eq)
  from login_once [OF reachable_alice_online] h2 h3 h4 h5
  have "map fst (users (handleCommand alice_online 3 4 ''login  alice'')) =
          map fst (users alice_online)
        \<and> new_events alice_online (handleCommand alice_online 3 4 ''login  alice'') =
            [SocketWrite 4 (''ERR username-taken'' @ [CHR 0x0A])]"
    by blast
  with reachable_alice_online h2 h3 h4 h5 show ?thesis
    unfolding keys by blast
qed

section \<open>Names with a space\<close>








section \<open>The idle sweep\<close>

lemma selection_loop:
  "foldl (\<lambda>acc e.
        if now - lastActivity (snd e) > IDLE_TIMEOUT \<and> \<not> disconnecting (snd e)
        then acc @ [(fst e, socket (snd e))] else acc) acc es =
     acc @ map (\<lambda>e. (fst e, socket (snd e))) (filter (is_idle now) es)"
  by (induction es arbitrary: acc) (simp_all add: is_idle_def)

lemma usersToDisconnect_eq:
  "usersToDisconnect s now = map (\<lambda>e. (fst e, socket (snd e))) (filter (is_idle now) (users s))"
  by (simp add: usersToDisconnect_def selection_loop)

lemma checkIdleUsers_eq: "checkIdleUsers s now = foldl evict s (usersToDisconnect s now)"
  by (simp add: checkIdleUsers_def evict_def [abs_def])

lemma evict_eq:
  assumes "wf s" and "getUsernameBySocket s t = Some u"
  shows "evict s (u, t) =
     \<lparr>users = map_delete (users s) u,
      destroyed = insert t (destroyed s),
      trace = trace s @
        lines_to (destroyed s) ''INFO disconnected-due-to-inactivity'' [t] @
        UsersDelete u #
        lines_to (destroyed s) (''INFO '' @ u @ '' disconnected'')
          (sockets_of (map_delete (users s) u)) @
        (if t \<in> destroyed s then [] else [SocketDestroy t])\<rparr>"
proof -
  let ?s0 = "sendToSocket s t ''INFO disconnected-due-to-inactivity''"
  from assms(1) have "wf ?s0" by simp
  moreover from assms(2) have "getUsernameBySocket ?s0 t = Some u"
    by (simp add: getUsernameBySocket_def)
  ultimately show ?thesis
    unfolding evict_def by (simp add: handleDisconnect_session sendToSocket_trace)
qed

lemma find_socket_delete:
  assumes "distinct (sockets_of m)" and "find_socket m t = Some u'" and "u' \<noteq> u"
  shows "find_socket (map_delete m u) t = Some u'"
proof -
  from assms(2) obtain d where d: "(u', d) \<in> set m" "socket d = t"
    by (auto dest: find_socket_Some)
  with assms(3) have "(u', d) \<in> set (map_delete m u)" by (simp add: map_delete_def)
  moreover from assms(1) have "distinct (sockets_of (map_delete m u))"
    by (rule distinct_sockets_delete)
  ultimately show ?thesis using d(2) find_socket_unique by blast
qed

lemma selected_ok_step:
  assumes "selected_ok s (p # sel)"
  shows "selected_ok (evict s p) sel"
    and "\<forall>q \<in> set sel. snd q \<noteq> snd p"
proof -
  obtain u t where p: "p = (u, t)" by (cases p)
  from assms p have w: "wf s" and u: "getUsernameBySocket s t = Some u"
    and d: "distinct (map fst sel)" and fresh: "u \<notin> fst ` set sel"
    and rest: "\<forall>q \<in> set sel. getUsernameBySocket s (snd q) = Some (fst q)"
    by (auto simp: selected_ok_def)
  note eq = evict_eq [OF w u]
  from w have "wf (handleDisconnect (sendToSocket s t ''INFO disconnected-due-to-inactivity'') t)"
    by (simp add: wf_handleDisconnect)
  then have w': "wf (evict s p)" by (simp add: evict_def p)
  from w have dist: "distinct (sockets_of (users s))" by (simp add: wf_def sockets_of_def)
  have "getUsernameBySocket (evict s p) (snd q) = Some (fst q)" if "q \<in> set sel" for q
  proof -
    from that rest have "find_socket (users s) (snd q) = Some (fst q)"
      by (simp add: getUsernameBySocket_def)
    moreover from that fresh have "fst q \<noteq> u" by auto
    ultimately have "find_socket (map_delete (users s) u) (snd q) = Some (fst q)"
      using dist by (intro find_socket_delete)
    then show ?thesis by (simp add: getUsernameBySocket_def p eq)
  qed
  with w' d show "selected_ok (evict s p) sel" by (simp add: selected_ok_def)
  show "\<forall>q \<in> set sel. snd q \<noteq> snd p"
  proof
    fix q assume q: "q \<in> set sel"
    with rest have "getUsernameBySocket s (snd q) = Some (fst q)" by simp
    moreover from q fresh have "fst q \<noteq> u" by auto
    ultimately show "snd q \<noteq> snd p" using u p by auto
  qed
qed

lemma evict_users: "selected_ok s (p # sel) \<Longrightarrow> users (evict s p) = map_delete (users s) (fst p)"
  by (cases p) (simp add: selected_ok_def evict_eq)

lemma evict_destroyed:
  "selected_ok s (p # sel) \<Longrightarrow> destroyed (evict s p) = insert (snd p) (destroyed s)"
  by (cases p) (simp add: selected_ok_def evict_eq)

lemma evict_events:
  "selected_ok s (p # sel) \<Longrightarrow>
   new_events s (evict s p) =
     lines_to (destroyed s) ''INFO disconnected-due-to-inactivity'' [snd p] @
     UsersDelete (fst p) #
     lines_to (destroyed s) (''INFO '' @ fst p @ '' disconnected'')
       (sockets_of (map_delete (users s) (fst p))) @
     (if snd p \<in> destroyed s then [] else [SocketDestroy (snd p)])"
  by (cases p) (simp add: selected_ok_def evict_eq new_events_def)

lemma evict_trace:
  "selected_ok s (p # sel) \<Longrightarrow> trace (evict s p) = trace s @ new_events s (evict s p)"
  by (cases p) (simp add: selected_ok_def evict_eq new_events_def)

lemma sweep_trace:
  "selected_ok s sel \<Longrightarrow> trace (foldl evict s sel) = trace s @ new_events s (foldl evict s sel)"
proof (induction sel arbitrary: s)
  case Nil
  show ?case by (simp add: new_events_def)
next
  case (Cons p sel)
  let ?s1 = "evict s p" and ?s2 = "foldl evict (evict s p) sel"
  from Cons.prems have "selected_ok ?s1 sel" by (rule selected_ok_step)
  then have "trace ?s2 = trace ?s1 @ new_events ?s1 ?s2"
    by (rule Cons.IH)
  with evict_trace [OF Cons.prems]
  have all: "trace ?s2 = trace s @ new_events s ?s1 @ new_events ?s1 ?s2"
    by simp
  then have "new_events s ?s2 = new_events s ?s1 @ new_events ?s1 ?s2"
    by (rule new_events_append)
  with all show ?case by simp
qed

lemma sweep_events_Cons:
  assumes "selected_ok s (p # sel)"
  shows "new_events s (foldl evict (evict s p) sel) =
     new_events s (evict s p) @ new_events (evict s p) (foldl evict (evict s p) sel)"
proof -
  from assms have "selected_ok (evict s p) sel" by (rule selected_ok_step)
  then have "trace (foldl evict (evict s p) sel) =
      trace (evict s p) @ new_events (evict s p) (foldl evict (evict s p) sel)"
    by (rule sweep_trace)
  with evict_trace [OF assms] have "trace (foldl evict (evict s p) sel) =
      trace s @ new_events s (evict s p) @ new_events (evict s p) (foldl evict (evict s p) sel)"
    by simp
  then show ?thesis by (rule new_events_append)
qed

lemma sweep_users:
  "selected_ok s sel \<Longrightarrow>
   users (foldl evict s sel) = filter (\<lambda>e. fst e \<notin> fst ` set sel) (users s)"
proof (induction sel arbitrary: s)
  case Nil
  show ?case by simp
next
  case (Cons p sel)
  from Cons.prems have "selected_ok (evict s p) sel" by (rule selected_ok_step)
  then have "users (foldl evict (evict s p) sel) =
      filter (\<lambda>e. fst e \<notin> fst ` set sel) (users (evict s p))"
    by (rule Cons.IH)
  also have "users (evict s p) = filter (\<lambda>e. fst e \<noteq> fst p) (users s)"
    using Cons.prems by (simp add: evict_users map_delete_def)
  finally show ?case
    by (auto intro: filter_cong)
qed

lemma written_to_destroyed: "t \<in> D \<Longrightarrow> written_to t (lines_to D m ts) = []"
  by (induction ts) (auto simp: lines_to_def)

lemma sweep_skips_destroyed:
  "selected_ok s sel \<Longrightarrow> t \<in> destroyed s \<Longrightarrow>
   written_to t (new_events s (foldl evict s sel)) = []"
proof (induction sel arbitrary: s)
  case Nil
  show ?case by (simp add: new_events_def)
next
  case (Cons p sel)
  from Cons.prems(1) have ok: "selected_ok (evict s p) sel" by (rule selected_ok_step)
  from Cons.prems have "t \<in> destroyed (evict s p)" by (simp add: evict_destroyed)
  with ok have "written_to t (new_events (evict s p) (foldl evict (evict s p) sel)) = []"
    by (rule Cons.IH)
  moreover from Cons.prems have "written_to t (new_events s (evict s p)) = []"
    by (simp add: evict_events written_to_append written_to_destroyed)
  ultimately show ?case
    by (simp add: sweep_events_Cons [OF Cons.prems(1)] written_to_append)
qed

lemma sweep_deletes:
  "selected_ok s sel \<Longrightarrow> p \<in> set sel \<Longrightarrow>
   UsersDelete (fst p) \<in> set (new_events s (foldl evict s sel))"
proof (induction sel arbitrary: s)
  case Nil
  then show ?case by simp
next
  case (Cons q sel)
  from Cons.prems(1) have ok: "selected_ok (evict s q) sel" by (rule selected_ok_step)
  show ?case
  proof (cases "p = q")
    case True
    with Cons.prems(1) show ?thesis
      by (simp add: sweep_events_Cons evict_events)
  next
    case False
    with Cons.prems(2) have "p \<in> set sel" by simp
    with ok have "UsersDelete (fst p) \<in> set (new_events (evict s q) (foldl evict (evict s q) sel))"
      by (rule Cons.IH)
    then show ?thesis
      by (simp add: sweep_events_Cons [OF Cons.prems(1)])
  qed
qed

lemma selection_ok: "wf s \<Longrightarrow> selected_ok s (usersToDisconnect s now)"
proof -
  assume w: "wf s"
  then have dist: "distinct (sockets_of (users s))" and keys: "distinct (map fst (users s))"
    by (simp_all add: wf_def sockets_of_def)
  have "map fst (usersToDisconnect s now) = map fst (filter (is_idle now) (users s))"
    by (simp add: usersToDisconnect_eq comp_def)
  with keys have d: "distinct (map fst (usersToDisconnect s now))"
    by (simp add: distinct_map_filter)
  have "getUsernameBySocket s (snd p) = Some (fst p)" if "p \<in> set (usersToDisconnect s now)" for p
  proof -
    from that obtain e where "e \<in> set (users s)" "p = (fst e, socket (snd e))"
      by (auto simp: usersToDisconnect_eq)
    with dist show ?thesis
      using find_socket_unique [of "users s" "fst e" "snd e"]
      by (simp add: getUsernameBySocket_def)
  qed
  with w d show ?thesis by (simp add: selected_ok_def)
qed

lemma sweep_remaining:
  assumes "wf s"
  shows "users (checkIdleUsers s now) = filter (\<lambda>e. \<not> is_idle now e) (users s)"
proof -
  from assms have keys: "distinct (map fst (users s))" by (simp add: wf_def)
  have "fst e \<notin> fst ` set (usersToDisconnect s now) \<longleftrightarrow> \<not> is_idle now e"
    if "e \<in> set (users s)" for e
  proof
    assume out: "fst e \<notin> fst ` set (usersToDisconnect s now)"
    show "\<not> is_idle now e"
    proof
      assume "is_idle now e"
      with that have "(fst e, socket (snd e)) \<in> set (usersToDisconnect s now)"
        by (simp add: usersToDisconnect_eq)
      with out show False by force
    qed
  next
    assume busy: "\<not> is_idle now e"
    show "fst e \<notin> fst ` set (usersToDisconnect s now)"
    proof
      assume "fst e \<in> fst ` set (usersToDisconnect s now)"
      then obtain e' where e': "e' \<in> set (users s)" "is_idle now e'" "fst e' = fst e"
        by (auto simp: usersToDisconnect_eq)
      with keys that have "e' = e"
        by (metis distinct_map inj_on_def)
      with e'(2) busy show False by simp
    qed
  qed
  then have "filter (\<lambda>e. fst e \<notin> fst ` set (usersToDisconnect s now)) (users s) =
      filter (\<lambda>e. \<not> is_idle now e) (users s)"
    by (intro filter_cong) simp_all
  with sweep_users [OF selection_ok [OF assms, of now]] show ?thesis
    by (simp add: checkIdleUsers_eq)
qed

lemma sweep_exact:
  "selected_ok s sel \<Longrightarrow>
   new_events s (foldl evict s sel) = eviction_events (destroyed s) (users s) sel"
proof (induction sel arbitrary: s)
  case Nil
  show ?case by (simp add: new_events_def)
next
  case (Cons p sel)
  from Cons.prems have ok: "selected_ok (evict s p) sel" by (rule selected_ok_step)
  have "new_events (evict s p) (foldl evict (evict s p) sel) =
      eviction_events (destroyed (evict s p)) (users (evict s p)) sel"
    using ok by (rule Cons.IH)
  then have "new_events (evict s p) (foldl evict (evict s p) sel) =
      eviction_events (insert (snd p) (destroyed s)) (map_delete (users s) (fst p)) sel"
    using Cons.prems by (simp add: evict_users evict_destroyed)
  then show ?case
    using sweep_events_Cons [OF Cons.prems] evict_events [OF Cons.prems] by simp
qed

lemma sweep_destroyed:
  "selected_ok s sel \<Longrightarrow> destroyed (foldl evict s sel) = destroyed s \<union> snd ` set sel"
proof (induction sel arbitrary: s)
  case Nil
  show ?case by simp
next
  case (Cons p sel)
  from Cons.prems have ok: "selected_ok (evict s p) sel" by (rule selected_ok_step)
  have "destroyed (foldl evict (evict s p) sel) = destroyed (evict s p) \<union> snd ` set sel"
    using ok by (rule Cons.IH)
  with Cons.prems show ?case by (simp add: evict_destroyed)
qed

lemma socket_stays:
  assumes "distinct (map fst m)" and "find_socket m t = Some u"
    and "t' \<in> set (sockets_of m)" and "t' \<noteq> t"
  shows "t' \<in> set (sockets_of (map_delete m u))"
proof -
  from assms(3) obtain k d where kd: "(k, d) \<in> set m" "socket d = t'"
    by (auto simp: sockets_of_def)
  from assms(2) obtain du where du: "(u, du) \<in> set m" "socket du = t"
    by (auto dest: find_socket_Some)
  have "k \<noteq> u"
  proof
    assume "k = u"
    with assms(1) kd(1) du(1) have "d = du"
      by (metis map_of_is_SomeI option.inject)
    with kd(2) du(2) assms(4) show False by simp
  qed
  with kd show ?thesis by (force simp: sockets_of_def map_delete_def)
qed

lemma sweep_tells_rest:
  "selected_ok s sel \<Longrightarrow> t' \<in> set (sockets_of (users s)) \<Longrightarrow> t' \<notin> destroyed s \<Longrightarrow>
   t' \<notin> snd ` set sel \<Longrightarrow>
   written_to t' (new_events s (foldl evict s sel)) =
     map (\<lambda>p. ''INFO '' @ fst p @ '' disconnected'' @ [CHR 0x0A]) sel"
proof (induction sel arbitrary: s)
  case Nil
  show ?case by (simp add: new_events_def)
next
  case (Cons p sel)
  let ?s1 = "evict s p"
  let ?rest = "sockets_of (map_delete (users s) (fst p))"
  from Cons.prems(1) have ok: "selected_ok ?s1 sel" by (rule selected_ok_step)
  from Cons.prems(1) have w: "wf s"
    and found: "find_socket (users s) (snd p) = Some (fst p)"
    by (simp_all add: selected_ok_def getUsernameBySocket_def)
  from w have keys: "distinct (map fst (users s))" and socks: "distinct (sockets_of (users s))"
    by (simp_all add: wf_def sockets_of_def)
  from Cons.prems(4) have other: "t' \<noteq> snd p" by auto
  have stays: "t' \<in> set ?rest"
    using keys found Cons.prems(2) other by (rule socket_stays)
  from socks have dist: "distinct ?rest" by (rule distinct_sockets_delete)
  have "written_to t' (new_events s ?s1) = [''INFO '' @ fst p @ '' disconnected'' @ [CHR 0x0A]]"
  proof -
    define m where "m = ''INFO '' @ fst p @ '' disconnected''"
    have ev: "new_events s ?s1 =
        lines_to (destroyed s) ''INFO disconnected-due-to-inactivity'' [snd p] @
        UsersDelete (fst p) # lines_to (destroyed s) m ?rest @
        (if snd p \<in> destroyed s then [] else [SocketDestroy (snd p)])"
      unfolding m_def by (rule evict_events [OF Cons.prems(1)])
    have a: "written_to t' (lines_to (destroyed s) ''INFO disconnected-due-to-inactivity'' [snd p]) = []"
      using other written_to_lines_to [of "[snd p]" t'] by simp
    have b: "written_to t' (lines_to (destroyed s) m ?rest) = [m @ [CHR 0x0A]]"
      using stays Cons.prems(3) by (simp add: written_to_lines_to [OF dist])
    have "written_to t' (new_events s ?s1) = [m @ [CHR 0x0A]]"
      by (simp add: ev written_to_append a b)
    then show ?thesis by (simp add: m_def)
  qed
  moreover have "written_to t' (new_events ?s1 (foldl evict ?s1 sel)) =
      map (\<lambda>p. ''INFO '' @ fst p @ '' disconnected'' @ [CHR 0x0A]) sel"
  proof (rule Cons.IH [OF ok])
    from stays Cons.prems(1) show "t' \<in> set (sockets_of (users ?s1))"
      by (simp add: evict_users)
    from other Cons.prems(1,3) show "t' \<notin> destroyed ?s1"
      by (simp add: evict_destroyed)
    from Cons.prems(4) show "t' \<notin> snd ` set sel" by auto
  qed
  ultimately show ?case
    by (simp add: sweep_events_Cons [OF Cons.prems(1)] written_to_append)
qed

lemma lines_to_all:
  "\<forall>ev \<in> set (lines_to D m ts). \<exists>t. ev = SocketWrite t (m @ [CHR 0x0A])"
  by (auto simp: lines_to_def)

lemma sweep_block:
  "selected_ok s sel \<Longrightarrow> p \<in> set sel \<Longrightarrow> snd p \<notin> destroyed s \<Longrightarrow>
   \<exists>pre mid post. new_events s (foldl evict s sel) =
     pre @ SocketWrite (snd p) (''INFO disconnected-due-to-inactivity'' @ [CHR 0x0A]) #
           UsersDelete (fst p) # mid @ SocketDestroy (snd p) # post
     \<and> (\<forall>ev \<in> set mid. \<exists>t. ev = SocketWrite t ((''INFO '' @ fst p @ '' disconnected'') @ [CHR 0x0A]))"
proof (induction sel arbitrary: s)
  case Nil
  then show ?case by simp
next
  case (Cons q sel)
  let ?s1 = "evict s q"
  let ?later = "new_events ?s1 (foldl evict ?s1 sel)"
  let ?notice = "SocketWrite (snd p) (''INFO disconnected-due-to-inactivity'' @ [CHR 0x0A])"
  from Cons.prems(1) have ok: "selected_ok ?s1 sel" by (rule selected_ok_step)
  note split = sweep_events_Cons [OF Cons.prems(1)]
  show ?case
  proof (cases "p = q")
    case True
    let ?mid = "lines_to (destroyed s) (''INFO '' @ fst p @ '' disconnected'')
           (sockets_of (map_delete (users s) (fst p)))"
    from True Cons.prems(1,3) have "new_events s ?s1 =
        ?notice # UsersDelete (fst p) # ?mid @ [SocketDestroy (snd p)]"
      by (simp add: evict_events lines_to_def)
    then have "new_events s (foldl evict ?s1 sel) =
        [] @ ?notice # UsersDelete (fst p) # ?mid @ SocketDestroy (snd p) # ?later"
      by (simp add: split)
    moreover have "\<forall>ev \<in> set ?mid.
        \<exists>t. ev = SocketWrite t ((''INFO '' @ fst p @ '' disconnected'') @ [CHR 0x0A])"
      by (rule lines_to_all)
    ultimately have "\<exists>pre mid post. new_events s (foldl evict ?s1 sel) =
        pre @ ?notice # UsersDelete (fst p) # mid @ SocketDestroy (snd p) # post
        \<and> (\<forall>ev \<in> set mid. \<exists>t. ev = SocketWrite t ((''INFO '' @ fst p @ '' disconnected'') @ [CHR 0x0A]))"
      by blast
    then show ?thesis by simp
  next
    case False
    with Cons.prems(2) have mem: "p \<in> set sel" by simp
    with selected_ok_step(2) [OF Cons.prems(1)] have "snd p \<noteq> snd q" by blast
    with Cons.prems(1,3) have "snd p \<notin> destroyed ?s1" by (simp add: evict_destroyed)
    with ok mem obtain pre mid post where later: "?later =
        pre @ ?notice # UsersDelete (fst p) # mid @ SocketDestroy (snd p) # post"
      and mid: "\<forall>ev \<in> set mid. \<exists>t. ev = SocketWrite t ((''INFO '' @ fst p @ '' disconnected'') @ [CHR 0x0A])"
      using Cons.IH by blast
    from later have "new_events s (foldl evict ?s1 sel) =
        (new_events s ?s1 @ pre) @ ?notice # UsersDelete (fst p) # mid @ SocketDestroy (snd p) # post"
      by (simp add: split)
    with mid have "\<exists>pre mid post. new_events s (foldl evict ?s1 sel) =
        pre @ ?notice # UsersDelete (fst p) # mid @ SocketDestroy (snd p) # post
        \<and> (\<forall>ev \<in> set mid. \<exists>t. ev = SocketWrite t ((''INFO '' @ fst p @ '' disconnected'') @ [CHR 0x0A]))"
      by blast
    then show ?thesis by simp
  qed
qed


lemma selected_sockets:
  "snd ` set (usersToDisconnect s now) =
     (\<lambda>e. socket (snd e)) ` {e \<in> set (users s). is_idle now e}"
  by (force simp: usersToDisconnect_eq)

lemma selected_sockets_list:
  "snd ` set (usersToDisconnect s now) =
     set (map (\<lambda>e. socket (snd e)) (filter (is_idle now) (users s)))"
  by (force simp: usersToDisconnect_eq)

lemma busy_socket_not_selected:
  assumes "wf s" and "e \<in> set (users s)" and "\<not> is_idle now e"
  shows "socket (snd e) \<notin> snd ` set (usersToDisconnect s now)"
proof
  assume "socket (snd e) \<in> snd ` set (usersToDisconnect s now)"
  then obtain e' where e': "e' \<in> set (users s)" "is_idle now e'" "socket (snd e') = socket (snd e)"
    unfolding selected_sockets by auto
  from assms(1) have "distinct (map (\<lambda>e. socket (snd e)) (users s))" by (simp add: wf_def)
  with e'(1,3) assms(2) have "e' = e" by (metis distinct_map inj_on_def)
  with e'(2) assms(3) show False by simp
qed

text \<open>
  C4. One run of the idle sweep at time \<open>now\<close>. The entries pushed onto
  \<^verbatim>\<open>usersToDisconnect\<close> are those of the registry, in its order, whose last activity
  lies more than \<^verbatim>\<open>IDLE_TIMEOUT\<close> before \<open>now\<close> and that are not marked as
  disconnecting; the list is built from the registry as it is before the first teardown.
  From a registry that satisfies the invariant the sweep removes each of them and leaves
  every other entry, and it leaves destroyed the sockets that were and those of the selected
  entries. Its events are exactly the notice and the teardown of each selected entry in
  turn. For a selected entry whose socket is not destroyed they hold, in one run, the
  line \<^verbatim>\<open>INFO disconnected-due-to-inactivity\<close> to its socket, the deletion of its
  name, lines \<^verbatim>\<open>INFO name disconnected\<close> and the destruction of its socket. One whose
  socket is destroyed is deleted without any line to its socket. An entry that is not
  selected and whose socket is not destroyed is sent \<^verbatim>\<open>INFO name disconnected\<close> once
  for each selected entry, in their order. After the sweep a LOGIN with the name of a
  selected entry, from a socket that is not destroyed and has no session, is accepted.
\<close>

theorem idle_sweep:
  "usersToDisconnect s now =
     map (\<lambda>e. (fst e, socket (snd e))) (filter (is_idle now) (users s))
   \<and> (wf s \<longrightarrow>
        users (checkIdleUsers s now) = filter (\<lambda>e. \<not> is_idle now e) (users s)
        \<and> destroyed (checkIdleUsers s now) =
            destroyed s \<union> set (map (\<lambda>e. socket (snd e)) (filter (is_idle now) (users s)))
        \<and> new_events s (checkIdleUsers s now) =
            eviction_events (destroyed s) (users s) (usersToDisconnect s now)
        \<and> (\<forall>e \<in> set (users s). is_idle now e \<longrightarrow>
              (socket (snd e) \<notin> destroyed s \<longrightarrow>
                 (\<exists>pre mid post. new_events s (checkIdleUsers s now) =
                    pre @ SocketWrite (socket (snd e))
                            (''INFO disconnected-due-to-inactivity'' @ [CHR 0x0A]) #
                          UsersDelete (fst e) # mid @ SocketDestroy (socket (snd e)) # post
                    \<and> (\<forall>ev \<in> set mid. \<exists>t. ev =
                          SocketWrite t ((''INFO '' @ fst e @ '' disconnected'') @ [CHR 0x0A]))))
              \<and> (socket (snd e) \<in> destroyed s \<longrightarrow>
                   UsersDelete (fst e) \<in> set (new_events s (checkIdleUsers s now))
                   \<and> written_to (socket (snd e)) (new_events s (checkIdleUsers s now)) = [])
              \<and> (\<forall>now' t data.
                    command_of data = ''LOGIN'' \<and> login_name data = fst e
                    \<and> getUsernameBySocket (checkIdleUsers s now) t = None
                    \<and> t \<notin> destroyed (checkIdleUsers s now) \<longrightarrow>
                    handleCommand (checkIdleUsers s now) now' t data =
                      (checkIdleUsers s now)
                        \<lparr>users := users (checkIdleUsers s now) @
                           [(fst e, \<lparr>socket = t, lastActivity = now', disconnecting = False\<rparr>)],
                         trace := trace (checkIdleUsers s now) @
                           [UsersSet (fst e), SocketWrite t (''OK'' @ [CHR 0x0A])]\<rparr>))
        \<and> (\<forall>e \<in> set (users s).
              \<not> is_idle now e \<and> socket (snd e) \<notin> destroyed s \<longrightarrow>
              written_to (socket (snd e)) (new_events s (checkIdleUsers s now)) =
                map (\<lambda>e'. ''INFO '' @ fst e' @ '' disconnected'' @ [CHR 0x0A])
                  (filter (is_idle now) (users s))))"
proof (intro conjI impI ballI allI)
  show "usersToDisconnect s now =
     map (\<lambda>e. (fst e, socket (snd e))) (filter (is_idle now) (users s))"
    by (rule usersToDisconnect_eq)
next
  assume "wf s"
  then show "users (checkIdleUsers s now) = filter (\<lambda>e. \<not> is_idle now e) (users s)"
    by (rule sweep_remaining)
next
  assume w: "wf s"
  show "destroyed (checkIdleUsers s now) =
      destroyed s \<union> set (map (\<lambda>e. socket (snd e)) (filter (is_idle now) (users s)))"
    using sweep_destroyed [OF selection_ok [OF w, of now]]
    by (simp only: checkIdleUsers_eq selected_sockets_list)
next
  assume w: "wf s"
  show "new_events s (checkIdleUsers s now) =
      eviction_events (destroyed s) (users s) (usersToDisconnect s now)"
    using sweep_exact [OF selection_ok [OF w, of now]]
    by (simp only: checkIdleUsers_eq)
next
  fix e
  assume w: "wf s" and e: "e \<in> set (users s)" and idle: "is_idle now e"
    and live: "socket (snd e) \<notin> destroyed s"
  let ?p = "(fst e, socket (snd e))"
  from e idle have mem: "?p \<in> set (usersToDisconnect s now)"
    by (simp add: usersToDisconnect_eq)
  from live have live': "snd ?p \<notin> destroyed s" by simp
  from sweep_block [OF selection_ok [OF w, of now] mem live']
  show "\<exists>pre mid post. new_events s (checkIdleUsers s now) =
      pre @ SocketWrite (socket (snd e)) (''INFO disconnected-due-to-inactivity'' @ [CHR 0x0A]) #
            UsersDelete (fst e) # mid @ SocketDestroy (socket (snd e)) # post
      \<and> (\<forall>ev \<in> set mid. \<exists>t. ev =
            SocketWrite t ((''INFO '' @ fst e @ '' disconnected'') @ [CHR 0x0A]))"
    by (simp only: checkIdleUsers_eq fst_conv snd_conv)
next
  fix e
  assume w: "wf s" and e: "e \<in> set (users s)" and idle: "is_idle now e"
    and dead: "socket (snd e) \<in> destroyed s"
  let ?p = "(fst e, socket (snd e))"
  from e idle have "?p \<in> set (usersToDisconnect s now)"
    by (simp add: usersToDisconnect_eq)
  with selection_ok [OF w, of now]
  show "UsersDelete (fst e) \<in> set (new_events s (checkIdleUsers s now))"
    using sweep_deletes [of s "usersToDisconnect s now" ?p]
    by (simp add: checkIdleUsers_eq)
  from selection_ok [OF w, of now] dead
  show "written_to (socket (snd e)) (new_events s (checkIdleUsers s now)) = []"
    by (simp add: checkIdleUsers_eq sweep_skips_destroyed)
next
  fix e now' t data
  let ?s' = "checkIdleUsers s now"
  assume w: "wf s" and e: "e \<in> set (users s)" and idle: "is_idle now e"
    and login: "command_of data = ''LOGIN'' \<and> login_name data = fst e
       \<and> getUsernameBySocket ?s' t = None \<and> t \<notin> destroyed ?s'"
  from w e have ne: "fst e \<noteq> []" and keys: "distinct (map fst (users s))"
    by (auto simp: wf_def)
  have "\<not> map_has (users ?s') (fst e)"
  proof
    assume "map_has (users ?s') (fst e)"
    then obtain e' where e': "e' \<in> set (users s)" "\<not> is_idle now e'" "fst e' = fst e"
      by (auto simp: map_has_def sweep_remaining [OF w])
    with keys e have "e' = e" by (metis distinct_map inj_on_def)
    with e'(2) idle show False by simp
  qed
  with login ne show "handleCommand ?s' now' t data =
      ?s'\<lparr>users := users ?s' @ [(fst e, \<lparr>socket = t, lastActivity = now', disconnecting = False\<rparr>)],
          trace := trace ?s' @ [UsersSet (fst e), SocketWrite t (''OK'' @ [CHR 0x0A])]\<rparr>"
    using login_succeeds [of data ?s' t now'] by simp
next
  fix e
  assume w: "wf s" and e: "e \<in> set (users s)"
    and busy: "\<not> is_idle now e \<and> socket (snd e) \<notin> destroyed s"
  from e have reg: "socket (snd e) \<in> set (sockets_of (users s))"
    by (simp add: sockets_of_def)
  from w e busy have out: "socket (snd e) \<notin> snd ` set (usersToDisconnect s now)"
    by (simp add: busy_socket_not_selected)
  have "written_to (socket (snd e)) (new_events s (foldl evict s (usersToDisconnect s now))) =
      map (\<lambda>p. ''INFO '' @ fst p @ '' disconnected'' @ [CHR 0x0A]) (usersToDisconnect s now)"
    using selection_ok [OF w, of now] reg _ out
    by (rule sweep_tells_rest) (simp add: busy)
  then show "written_to (socket (snd e)) (new_events s (checkIdleUsers s now)) =
      map (\<lambda>e'. ''INFO '' @ fst e' @ '' disconnected'' @ [CHR 0x0A]) (filter (is_idle now) (users s))"
    by (simp add: checkIdleUsers_eq usersToDisconnect_eq comp_def)
qed

lemma bob_idle_lost_eq:
  "bob_idle_lost =
     \<lparr>users = [(''alice'', \<lparr>socket = 0, lastActivity = 65000, disconnecting = False\<rparr>),
               (''bob'', \<lparr>socket = 1, lastActivity = 0, disconnecting = False\<rparr>)],
      destroyed = {1},
      trace = [UsersSet ''alice'', SocketWrite 0 (''OK'' @ [CHR 0x0A]),
               UsersSet ''bob'', SocketWrite 1 (''OK'' @ [CHR 0x0A]),
               SocketWrite 0 (''PONG'' @ [CHR 0x0A])]\<rparr>"
  by (simp add: bob_idle_lost_def bob_lost_eq run_defs string_defs)

text \<open>
  The wording of C4 in the specification has every selected session sent the notice. Bob
  is idle and his socket is destroyed: he is selected and torn down, and the one line that
  is written is the one that tells Alice.
\<close>

theorem sweep_skips_notice:
  "usersToDisconnect bob_idle_lost 70000 = [(''bob'', 1)]
   \<and> new_events bob_idle_lost (checkIdleUsers bob_idle_lost 70000) =
       [UsersDelete ''bob'', SocketWrite 0 (''INFO bob disconnected'' @ [CHR 0x0A])]
   \<and> written_to 1 (new_events bob_idle_lost (checkIdleUsers bob_idle_lost 70000)) = []"
  unfolding bob_idle_lost_eq
  by (simp add: new_events_def run_defs)

text \<open>
  C4 when Alice and Bob have both been silent for 70 seconds.
\<close>

theorem idle_sweep_witness:
  "wf alice_bob_online
   \<and> (''bob'', \<lparr>socket = 1, lastActivity = 0, disconnecting = False\<rparr>) \<in> set (users alice_bob_online)
   \<and> is_idle 70000 (''bob'', \<lparr>socket = 1, lastActivity = 0, disconnecting = False\<rparr>)
   \<and> 1 \<notin> destroyed alice_bob_online
   \<and> usersToDisconnect alice_bob_online 70000 = [(''alice'', 0), (''bob'', 1)]
   \<and> users (checkIdleUsers alice_bob_online 70000) = []
   \<and> destroyed (checkIdleUsers alice_bob_online 70000) = {0, 1}
   \<and> new_events alice_bob_online (checkIdleUsers alice_bob_online 70000) =
       [SocketWrite 0 (''INFO disconnected-due-to-inactivity'' @ [CHR 0x0A]),
        UsersDelete ''alice'',
        SocketWrite 1 (''INFO alice disconnected'' @ [CHR 0x0A]),
        SocketDestroy 0,
        SocketWrite 1 (''INFO disconnected-due-to-inactivity'' @ [CHR 0x0A]),
        UsersDelete ''bob'',
        SocketDestroy 1]
   \<and> (\<exists>pre mid post. new_events alice_bob_online (checkIdleUsers alice_bob_online 70000) =
         pre @ SocketWrite 1 (''INFO disconnected-due-to-inactivity'' @ [CHR 0x0A]) #
               UsersDelete ''bob'' # mid @ SocketDestroy 1 # post
         \<and> (\<forall>ev \<in> set mid. \<exists>t. ev = SocketWrite t (''INFO bob disconnected'' @ [CHR 0x0A])))"
proof -
  let ?bob = "(''bob'', \<lparr>socket = 1, lastActivity = 0, disconnecting = False\<rparr>)"
  let ?s' = "checkIdleUsers alice_bob_online 70000"
  have us: "users alice_bob_online =
      [(''alice'', \<lparr>socket = 0, lastActivity = 0, disconnecting = False\<rparr>), ?bob]"
    by (simp add: alice_bob_online_eq)
  have live: "destroyed alice_bob_online = {}"
    by (simp add: alice_bob_online_eq)
  have h2: "?bob \<in> set (users alice_bob_online)"
    by (simp add: us)
  have h3: "is_idle 70000 ?bob"
    by (simp add: is_idle_def IDLE_TIMEOUT_def)
  have h4: "1 \<notin> destroyed alice_bob_online"
    by (simp add: live)
  have h4': "socket (snd ?bob) \<notin> destroyed alice_bob_online"
    using h4 by simp
  note T = idle_sweep [of alice_bob_online 70000]
  note W = T [THEN conjunct2, THEN mp, OF wf_alice_bob_online]
  from T have "usersToDisconnect alice_bob_online 70000 =
      map (\<lambda>e. (fst e, socket (snd e))) (filter (is_idle 70000) (users alice_bob_online))"
    by (rule conjunct1)
  then have sel: "usersToDisconnect alice_bob_online 70000 = [(''alice'', 0), (''bob'', 1)]"
    by (simp add: us is_idle_def IDLE_TIMEOUT_def)
  from W have "users ?s' = filter (\<lambda>e. \<not> is_idle 70000 e) (users alice_bob_online)"
    by (rule conjunct1)
  then have gone: "users ?s' = []"
    by (simp add: us is_idle_def IDLE_TIMEOUT_def)
  from W have "destroyed ?s' = destroyed alice_bob_online \<union>
      set (map (\<lambda>e. socket (snd e)) (filter (is_idle 70000) (users alice_bob_online)))"
    by (rule conjunct2 [THEN conjunct1])
  then have closed: "destroyed ?s' = {0, 1}"
    by (simp add: us live is_idle_def IDLE_TIMEOUT_def)
  from W have "new_events alice_bob_online ?s' =
      eviction_events (destroyed alice_bob_online) (users alice_bob_online)
        (usersToDisconnect alice_bob_online 70000)"
    by (rule conjunct2 [THEN conjunct2, THEN conjunct1])
  then have exact: "new_events alice_bob_online ?s' =
       [SocketWrite 0 (''INFO disconnected-due-to-inactivity'' @ [CHR 0x0A]),
        UsersDelete ''alice'',
        SocketWrite 1 (''INFO alice disconnected'' @ [CHR 0x0A]),
        SocketDestroy 0,
        SocketWrite 1 (''INFO disconnected-due-to-inactivity'' @ [CHR 0x0A]),
        UsersDelete ''bob'',
        SocketDestroy 1]"
    unfolding sel us live by (simp add: lines_to_def sockets_of_def map_delete_def)
  note bob = W [THEN conjunct2, THEN conjunct2, THEN conjunct2, THEN conjunct1, THEN bspec,
      OF h2, THEN mp, OF h3, THEN conjunct1, THEN mp, OF h4']
  from bob have block: "\<exists>pre mid post. new_events alice_bob_online ?s' =
         pre @ SocketWrite 1 (''INFO disconnected-due-to-inactivity'' @ [CHR 0x0A]) #
               UsersDelete ''bob'' # mid @ SocketDestroy 1 # post
         \<and> (\<forall>ev \<in> set mid. \<exists>t. ev = SocketWrite t (''INFO bob disconnected'' @ [CHR 0x0A]))"
    by simp
  from wf_alice_bob_online h2 h3 h4 sel gone closed exact block show ?thesis
    by (intro conjI)
qed

end
